theory Spec2Isabelle
  imports Complex_Main "HOL-Library.Word"
begin

unbundle bit_operations_syntax

section \<open>Message framing (tcp\_utils.cpp)\<close>

text \<open>
  Bytes are \<open>uint8_t\<close>, sizes are \<open>size_t\<close> (64 bit).  A \<open>std::vector<uint8_t>\<close> is a
  list of bytes; its \<open>size()\<close> is the length of the list.
\<close>

type_synonym byte = "8 word"
type_synonym size_t = "64 word"

subsection \<open>LengthPrefixedFramer\<close>

datatype LengthType = UInt8 | UInt16 | UInt32 | UInt64

record LengthPrefixedFramer =
  lengthType :: LengthType
  bigEndian :: bool
  lp_buffer :: "byte list"
  expectedLength :: size_t
  lengthReceived :: bool

text \<open>The constructor: empty buffer, \<open>expectedLength_(0)\<close>, \<open>lengthReceived_(false)\<close>.\<close>

definition newLengthPrefixedFramer :: "LengthType \<Rightarrow> bool \<Rightarrow> LengthPrefixedFramer" where
  "newLengthPrefixedFramer lt be =
     \<lparr>lengthType = lt, bigEndian = be, lp_buffer = [], expectedLength = 0, lengthReceived = False\<rparr>"

fun getLengthSize :: "LengthType \<Rightarrow> nat" where
  "getLengthSize UInt8 = 1"
| "getLengthSize UInt16 = 2"
| "getLengthSize UInt32 = 4"
| "getLengthSize UInt64 = 8"

text \<open>
  \<open>writeLength(data, length)\<close> appends the prefix to \<open>data\<close>.  The length is first cast to
  the prefix type (\<open>static_cast<uint16_t>(length)\<close> and so on), which drops the high bits.
\<close>

fun writeLength :: "LengthType \<Rightarrow> bool \<Rightarrow> byte list \<Rightarrow> size_t \<Rightarrow> byte list" where
  "writeLength UInt8 be data len = data @ [ucast len]"
| "writeLength UInt16 be data len =
     (let l = (ucast len :: 16 word) in
      if be then data @ [ucast (drop_bit 8 l AND 0xFF), ucast (l AND 0xFF)]
      else data @ [ucast (l AND 0xFF), ucast (drop_bit 8 l AND 0xFF)])"
| "writeLength UInt32 be data len =
     (let l = (ucast len :: 32 word) in
      if be then data @ [ucast (drop_bit 24 l AND 0xFF), ucast (drop_bit 16 l AND 0xFF),
                         ucast (drop_bit 8 l AND 0xFF), ucast (l AND 0xFF)]
      else data @ [ucast (l AND 0xFF), ucast (drop_bit 8 l AND 0xFF),
                   ucast (drop_bit 16 l AND 0xFF), ucast (drop_bit 24 l AND 0xFF)])"
| "writeLength UInt64 be data len =
     (let l = (ucast len :: 64 word) in
      if be then data @ map (\<lambda>i. ucast (drop_bit (i * 8) l AND 0xFF)) (rev [0..<8])
      else data @ map (\<lambda>i. ucast (drop_bit (i * 8) l AND 0xFF)) [0..<8])"

text \<open>
  \<open>readLength(data, offset)\<close>.  Both call sites check
  \<open>size() >= getLengthSize()\<close> first and pass offset 0, so every index is in range.
  The 16-bit case computes in \<open>int\<close> after integer promotion.
\<close>

fun readLength :: "LengthType \<Rightarrow> bool \<Rightarrow> byte list \<Rightarrow> nat \<Rightarrow> size_t" where
  "readLength UInt8 be data offset = ucast (data ! offset)"
| "readLength UInt16 be data offset =
     (if be then ucast (push_bit 8 (ucast (data ! offset) :: 32 word) OR ucast (data ! (offset + 1)))
      else ucast ((ucast (data ! offset) :: 32 word) OR push_bit 8 (ucast (data ! (offset + 1)))))"
| "readLength UInt32 be data offset =
     (if be then ucast (push_bit 24 (ucast (data ! offset) :: 32 word)
                        OR push_bit 16 (ucast (data ! (offset + 1)))
                        OR push_bit 8 (ucast (data ! (offset + 2)))
                        OR ucast (data ! (offset + 3)))
      else ucast ((ucast (data ! offset) :: 32 word)
                  OR push_bit 8 (ucast (data ! (offset + 1)))
                  OR push_bit 16 (ucast (data ! (offset + 2)))
                  OR push_bit 24 (ucast (data ! (offset + 3)))))"
| "readLength UInt64 be data offset =
     (if be then fold (\<lambda>i result. result OR push_bit ((7 - i) * 8) (ucast (data ! (offset + i)))) [0..<8] 0
      else fold (\<lambda>i result. result OR push_bit (i * 8) (ucast (data ! (offset + i)))) [0..<8] 0)"

definition lp_frame :: "LengthPrefixedFramer \<Rightarrow> byte list \<Rightarrow> byte list" where
  "lp_frame f data =
     writeLength (lengthType f) (bigEndian f) [] (of_nat (length data)) @ data"

text \<open>
  The body of the \<open>while\<close> loop of \<open>unframe\<close> has two \<open>if\<close> blocks.  The first
  reads the header when none is pending; \<open>None\<close> is its \<open>break\<close>.
\<close>

definition header_phase :: "LengthPrefixedFramer \<Rightarrow> LengthPrefixedFramer option" where
  "header_phase f =
     (if \<not> lengthReceived f then
        (if getLengthSize (lengthType f) \<le> length (lp_buffer f) then
           Some (f\<lparr>expectedLength := readLength (lengthType f) (bigEndian f) (lp_buffer f) 0,
                   lengthReceived := True,
                   lp_buffer := drop (getLengthSize (lengthType f)) (lp_buffer f)\<rparr>)
         else None)
      else Some f)"

text \<open>
  The second block emits a message when the payload is complete; \<open>None\<close> is its
  \<open>break\<close>.
\<close>

definition payload_phase :: "LengthPrefixedFramer \<Rightarrow> (byte list \<times> LengthPrefixedFramer) option" where
  "payload_phase f =
     (if lengthReceived f \<and> unat (expectedLength f) \<le> length (lp_buffer f) then
        Some (take (unat (expectedLength f)) (lp_buffer f),
              f\<lparr>lp_buffer := drop (unat (expectedLength f)) (lp_buffer f),
                lengthReceived := False,
                expectedLength := 0\<rparr>)
      else None)"

text \<open>
  The loop itself, after the new bytes were appended to \<open>buffer_\<close>; \<open>messages\<close> holds the
  messages emitted so far in this call.
\<close>

function unframe_loop ::
  "LengthPrefixedFramer \<Rightarrow> byte list list \<Rightarrow> byte list list \<times> LengthPrefixedFramer" where
  "unframe_loop f messages =
     (if getLengthSize (lengthType f) \<le> length (lp_buffer f) then
        (case header_phase f of
           None \<Rightarrow> (messages, f)
         | Some f1 \<Rightarrow>
             (case payload_phase f1 of
                None \<Rightarrow> (messages, f1)
              | Some (m, f2) \<Rightarrow> unframe_loop f2 (messages @ [m])))
      else (messages, f))"
  by pat_completeness auto

termination unframe_loop
proof (relation "measure (\<lambda>(f, ms). 2 * length (lp_buffer f) + (if lengthReceived f then 1 else 0))")
  show "wf (measure (\<lambda>(f, ms). 2 * length (lp_buffer f) + (if lengthReceived f then 1 else 0)))"
    by simp
next
  fix f :: LengthPrefixedFramer and messages :: "byte list list" and f1 x2 m f2
  assume a: "getLengthSize (lengthType f) \<le> length (lp_buffer f)"
    and h: "header_phase f = Some f1"
    and p: "payload_phase f1 = Some x2" "(m, f2) = x2"
  have L: "0 < getLengthSize (lengthType f)" by (cases "lengthType f") simp_all
  from p have f2: "lengthReceived f1" "\<not> lengthReceived f2"
    "length (lp_buffer f2) \<le> length (lp_buffer f1)"
    by (auto simp: payload_phase_def split: if_splits)
  from h a L f2(1) have "2 * length (lp_buffer f1) + 1
      \<le> 2 * length (lp_buffer f) + (if lengthReceived f then 1 else 0)"
    by (auto simp: header_phase_def split: if_splits)
  with f2 show "((f2, messages @ [m]), (f, messages))
      \<in> measure (\<lambda>(f, ms). 2 * length (lp_buffer f) + (if lengthReceived f then 1 else 0))"
    by simp
qed

definition lp_unframe ::
  "LengthPrefixedFramer \<Rightarrow> byte list \<Rightarrow> byte list list \<times> LengthPrefixedFramer" where
  "lp_unframe f data = unframe_loop (f\<lparr>lp_buffer := lp_buffer f @ data\<rparr>) []"

definition lp_isComplete :: "LengthPrefixedFramer \<Rightarrow> byte list \<Rightarrow> bool" where
  "lp_isComplete f data =
     (if length data < getLengthSize (lengthType f) then False
      else unat (of_nat (getLengthSize (lengthType f))
                   + readLength (lengthType f) (bigEndian f) data 0) \<le> length data)"

definition lp_reset :: "LengthPrefixedFramer \<Rightarrow> LengthPrefixedFramer" where
  "lp_reset f = f\<lparr>lp_buffer := [], expectedLength := 0, lengthReceived := False\<rparr>"

text \<open>Feeding a list of chunks, one \<open>unframe\<close> call per chunk, collecting each call's result.\<close>

fun lp_feed ::
  "LengthPrefixedFramer \<Rightarrow> byte list list \<Rightarrow> byte list list list \<times> LengthPrefixedFramer" where
  "lp_feed f [] = ([], f)"
| "lp_feed f (c # cs) =
     (case lp_unframe f c of (ms, f1) \<Rightarrow>
        (case lp_feed f1 cs of (mss, f2) \<Rightarrow> (ms # mss, f2)))"

subsection \<open>DelimiterFramer\<close>

record DelimiterFramer =
  delimiter :: "byte list"
  includeDelimiter :: bool
  df_buffer :: "byte list"

definition newDelimiterFramer :: "byte list \<Rightarrow> bool \<Rightarrow> DelimiterFramer" where
  "newDelimiterFramer d incl = \<lparr>delimiter = d, includeDelimiter = incl, df_buffer = []\<rparr>"

definition df_frame :: "DelimiterFramer \<Rightarrow> byte list \<Rightarrow> byte list" where
  "df_frame f data = data @ delimiter f"

text \<open>
  \<open>findDelimiter(data, startPos)\<close>: the \<open>for\<close> loop tries the positions
  \<open>startPos, ..., data.size() - delimiter_.size()\<close> in order and returns the first one at
  which \<open>std::equal\<close> finds the delimiter; \<open>None\<close> is \<open>std::string::npos\<close>.
\<close>

definition findDelimiter :: "byte list \<Rightarrow> byte list \<Rightarrow> nat \<Rightarrow> nat option" where
  "findDelimiter d data startPos =
     (if d = [] \<or> length data < length d then None
      else find (\<lambda>i. take (length d) (drop i data) = d)
                [startPos ..< Suc (length data - length d)])"

text \<open>
  The \<open>while\<close> loop of \<open>unframe\<close>; \<open>pos\<close> is 0 at every call of \<open>findDelimiter\<close>.
\<close>

function df_unframe_loop ::
  "DelimiterFramer \<Rightarrow> byte list list \<Rightarrow> byte list list \<times> DelimiterFramer" where
  "df_unframe_loop f messages =
     (case findDelimiter (delimiter f) (df_buffer f) 0 of
        None \<Rightarrow> (messages, f)
      | Some pos \<Rightarrow>
          df_unframe_loop
            (f\<lparr>df_buffer := drop (pos + length (delimiter f)) (df_buffer f)\<rparr>)
            (messages @ [take pos (df_buffer f)
                         @ (if includeDelimiter f then delimiter f else [])]))"
  by pat_completeness auto

termination df_unframe_loop
proof (relation "measure (\<lambda>(f, ms). length (df_buffer f))")
  show "wf (measure (\<lambda>(f, ms). length (df_buffer f)))"
    by simp
next
  fix f :: DelimiterFramer and messages :: "byte list list" and pos
  assume "findDelimiter (delimiter f) (df_buffer f) 0 = Some pos"
  then have "delimiter f \<noteq> []" and "length (delimiter f) \<le> length (df_buffer f)"
    by (auto simp: findDelimiter_def split: if_splits)
  then show "((f\<lparr>df_buffer := drop (pos + length (delimiter f)) (df_buffer f)\<rparr>,
               messages @ [take pos (df_buffer f) @ (if includeDelimiter f then delimiter f else [])]),
              (f, messages)) \<in> measure (\<lambda>(f, ms). length (df_buffer f))"
    by (cases "delimiter f") auto
qed

definition df_unframe ::
  "DelimiterFramer \<Rightarrow> byte list \<Rightarrow> byte list list \<times> DelimiterFramer" where
  "df_unframe f data = df_unframe_loop (f\<lparr>df_buffer := df_buffer f @ data\<rparr>) []"

definition df_isComplete :: "DelimiterFramer \<Rightarrow> byte list \<Rightarrow> bool" where
  "df_isComplete f data = (findDelimiter (delimiter f) data 0 \<noteq> None)"

definition df_reset :: "DelimiterFramer \<Rightarrow> DelimiterFramer" where
  "df_reset f = f\<lparr>df_buffer := []\<rparr>"

fun df_feed ::
  "DelimiterFramer \<Rightarrow> byte list list \<Rightarrow> byte list list list \<times> DelimiterFramer" where
  "df_feed f [] = ([], f)"
| "df_feed f (c # cs) =
     (case df_unframe f c of (ms, f1) \<Rightarrow>
        (case df_feed f1 cs of (mss, f2) \<Rightarrow> (ms # mss, f2)))"

section \<open>RateLimiter (tcp\_utils.cpp)\<close>

text \<open>
  The token bucket.  \<open>lastRefill_\<close> is a \<open>steady_clock::time_point\<close>: a count of
  nanoseconds, and \<open>now\<close> is what \<open>steady_clock::now()\<close> returns at the call.
\<close>

record RateLimiter =
  bytesPerSecond :: size_t
  bucketSize :: size_t
  availableBytes :: size_t
  lastRefill :: nat

text \<open>
  Two expressions of the source are computed in \<open>double\<close>:
  \<open>static_cast<size_t>((elapsed.count() / 1000.0) * bytesPerSecond_)\<close> in
  \<open>refillBucket\<close> and
  \<open>static_cast<long long>(static_cast<double>(deficit) / bytesPerSecond_ * 1000)\<close> in
  \<open>getDelay\<close>.  The operations of the limiter take the two functions as a parameter;
  \<open>ieee_arith\<close> below is the instance that computes them as the source does, in IEEE 754
  binary64 arithmetic.
\<close>

record double_arith =
  tokensToAdd :: "nat \<Rightarrow> size_t \<Rightarrow> size_t"
  delayMillis :: "size_t \<Rightarrow> size_t \<Rightarrow> int"

subsection \<open>The double computations\<close>

text \<open>
  A finite \<open>double\<close> that is not negative is \<open>Dbl m e\<close>, the number \<open>m * 2^e\<close>;
  \<open>NonFinite\<close> stands for an infinity or a NaN.  No negative value occurs: the operands
  are converted from \<open>size_t\<close> values, from a positive \<open>elapsed.count()\<close> and from the
  literals \<open>1000.0\<close> and \<open>1000\<close>.  The exponent is not bounded in the model: the operands
  are integers below \<open>2^64\<close>, so that every quotient and product that is not zero lies
  between \<open>2^-65\<close> and \<open>2^129\<close>, where a \<open>double\<close> neither overflows nor is subnormal.

  \<open>bitlen n\<close> is the number of binary digits of \<open>n\<close>.  \<open>rne p q\<close> is the integer nearest
  to \<open>p / q\<close>, the even one of the two at a tie (the default rounding mode).
  \<open>round53 p q\<close> is the \<open>double\<close> nearest to \<open>p / q\<close> for positive \<open>p\<close> and \<open>q\<close>: a
  significand of 53 bits and its exponent.
\<close>

datatype double = Dbl nat int | NonFinite

fun bitlen :: "nat \<Rightarrow> nat" where
  "bitlen n = (if n = 0 then 0 else Suc (bitlen (n div 2)))"

declare bitlen.simps [simp del]

definition rne :: "nat \<Rightarrow> nat \<Rightarrow> nat" where
  "rne p q =
     (if 2 * (p mod q) < q then p div q
      else if q < 2 * (p mod q) then p div q + 1
      else if even (p div q) then p div q
      else p div q + 1)"

definition round53 :: "nat \<Rightarrow> nat \<Rightarrow> nat \<times> int" where
  "round53 p q =
     (let s = int (bitlen p) - int (bitlen q);
          fl = (if q * 2 ^ nat s \<le> p * 2 ^ nat (- s) then s else s - 1);
          e = fl - 52;
          m = rne (p * 2 ^ nat (- e)) (q * 2 ^ nat e)
      in if m = 2 ^ 53 then (2 ^ 52, e + 1) else (m, e))"

text \<open>
  The conversion of an integer to \<open>double\<close>, the division and the multiplication, each
  rounded once; a division by zero gives an infinity or a NaN.
\<close>

definition d_of_nat :: "nat \<Rightarrow> double" where
  "d_of_nat n = (if n = 0 then Dbl 0 0 else case round53 n 1 of (m, e) \<Rightarrow> Dbl m e)"

fun d_div :: "double \<Rightarrow> double \<Rightarrow> double" where
  "d_div (Dbl m1 e1) (Dbl m2 e2) =
     (if m2 = 0 then NonFinite
      else if m1 = 0 then Dbl 0 0
      else case round53 m1 m2 of (m, e) \<Rightarrow> Dbl m (e + e1 - e2))"
| "d_div x y = NonFinite"

fun d_mul :: "double \<Rightarrow> double \<Rightarrow> double" where
  "d_mul (Dbl m1 e1) (Dbl m2 e2) =
     (if m1 = 0 \<or> m2 = 0 then Dbl 0 0
      else case round53 (m1 * m2) 1 of (m, e) \<Rightarrow> Dbl m (e + e1 + e2))"
| "d_mul x y = NonFinite"

text \<open>
  The conversion of a \<open>double\<close> to an integer type discards the fraction; the value is
  then to be compared with the range of the target type.  An infinity or a NaN has no
  integer value.
\<close>

fun d_trunc :: "double \<Rightarrow> nat option" where
  "d_trunc (Dbl m e) = Some (if 0 \<le> e then m * 2 ^ nat e else m div 2 ^ nat (- e))"
| "d_trunc NonFinite = None"

text \<open>
  Both expressions of the source have the shape \<open>(a / b) * c\<close>, with the three operands
  converted to \<open>double\<close> and the product converted back to an integer.
\<close>

definition muldiv :: "nat \<Rightarrow> nat \<Rightarrow> nat \<Rightarrow> nat option" where
  "muldiv a b c = d_trunc (d_mul (d_div (d_of_nat a) (d_of_nat b)) (d_of_nat c))"

text \<open>
  \<open>static_cast<size_t>((elapsed.count() / 1000.0) * bytesPerSecond_)\<close> and
  \<open>static_cast<long long>(secondsToWait * 1000)\<close> with
  \<open>secondsToWait = static_cast<double>(deficit) / bytesPerSecond_\<close>.  The conversion is
  undefined in C++ (\<open>None\<close>) when the value does not fit the target type; this includes
  the infinity that a rate of 0 produces in \<open>getDelay\<close>.
\<close>

definition ieee_tokensToAdd :: "nat \<Rightarrow> size_t \<Rightarrow> size_t option" where
  "ieee_tokensToAdd elapsed rate =
     (case muldiv elapsed 1000 (unat rate) of
        None \<Rightarrow> None
      | Some t \<Rightarrow> if t < 2 ^ 64 then Some (of_nat t) else None)"

definition ieee_delayMillis :: "size_t \<Rightarrow> size_t \<Rightarrow> int option" where
  "ieee_delayMillis deficit rate =
     (case muldiv (unat deficit) (unat rate) 1000 of
        None \<Rightarrow> None
      | Some t \<Rightarrow> if t < 2 ^ 63 then Some (int t) else None)"

text \<open>
  Where the conversion is undefined \<open>ieee_arith\<close> takes \<open>LLONG_MIN\<close> for the
  \<open>long long\<close>, which is what the conversion instruction of x86-64 delivers, and 0 for
  the \<open>size_t\<close>.  No theorem below depends on these two values.
\<close>

definition ieee_arith :: double_arith where
  "ieee_arith =
     \<lparr>tokensToAdd = (\<lambda>elapsed rate. case ieee_tokensToAdd elapsed rate of
                                        None \<Rightarrow> 0 | Some t \<Rightarrow> t),
      delayMillis = (\<lambda>deficit rate. case ieee_delayMillis deficit rate of
                                       None \<Rightarrow> - (2 ^ 63) | Some d \<Rightarrow> d)\<rparr>"

text \<open>
  For the error analysis: the real number a \<open>double\<close> stands for, the exponent
  \<open>round53\<close> starts from (the integer part of the binary logarithm of \<open>p / q\<close>), and
  "\<open>v\<close> is \<open>x\<close> rounded to 53 bits", a relative error of at most \<open>2^-53\<close>.
\<close>

definition dval :: "double \<Rightarrow> real" where
  "dval d = (case d of Dbl m e \<Rightarrow> real m * 2 powi e | NonFinite \<Rightarrow> 0)"

definition flog :: "nat \<Rightarrow> nat \<Rightarrow> int" where
  "flog p q = (let s = int (bitlen p) - int (bitlen q)
               in if q * 2 ^ nat s \<le> p * 2 ^ nat (- s) then s else s - 1)"

definition near :: "real \<Rightarrow> real \<Rightarrow> bool" where
  "near v x = (x * (1 - 1 / 2 ^ 53) \<le> v \<and> v \<le> x * (1 + 1 / 2 ^ 53))"

subsection \<open>The operations\<close>

text \<open>The constructor \<open>RateLimiter(bytesPerSecond, bucketSize)\<close>, called at time \<open>now\<close>.\<close>

definition newRateLimiter :: "nat \<Rightarrow> size_t \<Rightarrow> size_t \<Rightarrow> RateLimiter" where
  "newRateLimiter now bps bucket =
     \<lparr>bytesPerSecond = bps,
      bucketSize = (if 0 < bucket then bucket else bps),
      availableBytes = (if 0 < bucket then bucket else bps),
      lastRefill = now\<rparr>"

text \<open>\<open>duration_cast<milliseconds>(now - lastRefill_).count()\<close>.\<close>

definition elapsedMillis :: "nat \<Rightarrow> RateLimiter \<Rightarrow> nat" where
  "elapsedMillis now s = (now - lastRefill s) div 1000000"

definition refillBucket :: "double_arith \<Rightarrow> nat \<Rightarrow> RateLimiter \<Rightarrow> RateLimiter" where
  "refillBucket fp now s =
     (if 0 < elapsedMillis now s then
        s\<lparr>availableBytes :=
             min (bucketSize s)
                 (availableBytes s + tokensToAdd fp (elapsedMillis now s) (bytesPerSecond s)),
          lastRefill := now\<rparr>
      else s)"

definition allowBytes :: "double_arith \<Rightarrow> nat \<Rightarrow> size_t \<Rightarrow> RateLimiter \<Rightarrow> bool \<times> RateLimiter" where
  "allowBytes fp now bytes s =
     (if bytes \<le> availableBytes (refillBucket fp now s) then
        (True, (refillBucket fp now s)
                 \<lparr>availableBytes := availableBytes (refillBucket fp now s) - bytes\<rparr>)
      else (False, refillBucket fp now s))"


text \<open>
  \<open>waitForBytes\<close> polls \<open>allowBytes\<close> until it succeeds.  The model is given the times
  of the polls; the result says whether one of them succeeded, and the state is the one
  after the last poll made.
\<close>

fun waitForBytes :: "double_arith \<Rightarrow> nat list \<Rightarrow> size_t \<Rightarrow> RateLimiter \<Rightarrow> bool \<times> RateLimiter" where
  "waitForBytes fp [] bytes s = (False, s)"
| "waitForBytes fp (now # polls) bytes s =
     (if fst (allowBytes fp now bytes s) then allowBytes fp now bytes s
      else waitForBytes fp polls bytes (snd (allowBytes fp now bytes s)))"

definition setRate :: "size_t \<Rightarrow> RateLimiter \<Rightarrow> RateLimiter" where
  "setRate bps s = s\<lparr>bytesPerSecond := bps\<rparr>"

definition setBucketSize :: "size_t \<Rightarrow> RateLimiter \<Rightarrow> RateLimiter" where
  "setBucketSize bucket s = s\<lparr>bucketSize := bucket\<rparr>"

definition getAvailableBytes :: "RateLimiter \<Rightarrow> size_t" where
  "getAvailableBytes s = availableBytes s"

definition rl_reset :: "nat \<Rightarrow> RateLimiter \<Rightarrow> RateLimiter" where
  "rl_reset now s = s\<lparr>availableBytes := bucketSize s, lastRefill := now\<rparr>"

text \<open>A call of one of the operations, and the state after a sequence of timed calls.\<close>

datatype rl_op =
    AllowBytes size_t
  | GetDelay size_t
  | WaitForBytes "nat list" size_t
  | SetRate size_t
  | SetBucketSize size_t
  | Reset
  | GetAvailableBytes

fun rl_step :: "double_arith \<Rightarrow> nat \<times> rl_op \<Rightarrow> RateLimiter \<Rightarrow> RateLimiter" where
  "rl_step fp (now, AllowBytes n) s = snd (allowBytes fp now n s)"
| "rl_step fp (now, GetDelay n) s = s"
| "rl_step fp (now, WaitForBytes polls n) s = snd (waitForBytes fp polls n s)"
| "rl_step fp (now, SetRate r) s = setRate r s"
| "rl_step fp (now, SetBucketSize b) s = setBucketSize b s"
| "rl_step fp (now, Reset) s = rl_reset now s"
| "rl_step fp (now, GetAvailableBytes) s = s"

definition rl_run :: "double_arith \<Rightarrow> (nat \<times> rl_op) list \<Rightarrow> RateLimiter \<Rightarrow> RateLimiter" where
  "rl_run fp calls s = fold (rl_step fp) calls s"

text \<open>
  The claim about \<open>getDelay\<close> in the specification's words: \<open>d\<close> milliseconds is the
  wait until \<open>n\<close> tokens are available when the lazily refilled count reaches \<open>n\<close>
  after \<open>d\<close> milliseconds and not earlier.
\<close>

definition refilledTokens :: "double_arith \<Rightarrow> nat \<Rightarrow> RateLimiter \<Rightarrow> size_t" where
  "refilledTokens fp now s = availableBytes (refillBucket fp now s)"


section \<open>CircularBuffer (tcp\_utils.cpp)\<close>

text \<open>
  The fixed-capacity ring of bytes.  Its \<open>size_t\<close> fields are natural numbers here: while
  \<open>size_ <= capacity_\<close> and \<open>head_, tail_ < capacity_\<close> hold, no expression of these
  functions wraps around.
\<close>

record CircularBuffer =
  cb_buffer :: "byte list"
  cb_capacity :: nat
  cb_size :: nat
  cb_head :: nat
  cb_tail :: nat

definition newCircularBuffer :: "nat \<Rightarrow> CircularBuffer" where
  "newCircularBuffer capacity =
     \<lparr>cb_buffer = replicate capacity 0, cb_capacity = capacity,
      cb_size = 0, cb_head = 0, cb_tail = 0\<rparr>"

text \<open>
  The body of the \<open>for\<close> loop of \<open>write\<close>, and the loop over the \<open>writeLength\<close>
  bytes it copies.
\<close>

definition push_byte :: "byte \<Rightarrow> CircularBuffer \<Rightarrow> CircularBuffer" where
  "push_byte x cb =
     cb\<lparr>cb_buffer := (cb_buffer cb)[cb_tail cb := x],
        cb_tail := (cb_tail cb + 1) mod cb_capacity cb,
        cb_size := cb_size cb + 1\<rparr>"

fun write_loop :: "byte list \<Rightarrow> CircularBuffer \<Rightarrow> CircularBuffer" where
  "write_loop [] cb = cb"
| "write_loop (x # xs) cb = write_loop xs (push_byte x cb)"

text \<open>
  \<open>write(data, length)\<close>: the list \<open>data\<close> is the \<open>length\<close> bytes at the pointer.  The
  result is the returned count and the buffer after the call.
\<close>

definition cb_write :: "CircularBuffer \<Rightarrow> byte list \<Rightarrow> nat \<times> CircularBuffer" where
  "cb_write cb data =
     (let availableSpace = cb_capacity cb - cb_size cb;
          writeLength = min (length data) availableSpace
      in (writeLength, write_loop (take writeLength data) cb))"

text \<open>
  The \<open>for\<close> loop of \<open>read\<close>: each iteration stores \<open>buffer_[head_]\<close> to
  \<open>destData\<close> (\<open>out\<close> is what was stored so far), then advances \<open>head_\<close> and
  decrements \<open>size_\<close>.
\<close>

definition pop_byte :: "CircularBuffer \<Rightarrow> CircularBuffer" where
  "pop_byte cb =
     cb\<lparr>cb_head := (cb_head cb + 1) mod cb_capacity cb, cb_size := cb_size cb - 1\<rparr>"

fun read_loop :: "nat \<Rightarrow> CircularBuffer \<Rightarrow> byte list \<Rightarrow> byte list \<times> CircularBuffer" where
  "read_loop 0 cb out = (out, cb)"
| "read_loop (Suc k) cb out =
     read_loop k (pop_byte cb) (out @ [cb_buffer cb ! cb_head cb])"

text \<open>
  \<open>read(data, length)\<close>: the returned count, the bytes stored to \<open>data\<close>, and the buffer
  after the call.
\<close>

definition cb_read :: "CircularBuffer \<Rightarrow> nat \<Rightarrow> nat \<times> byte list \<times> CircularBuffer" where
  "cb_read cb len =
     (let readLength = min len (cb_size cb)
      in (readLength, read_loop readLength cb []))"

fun peek_loop :: "nat \<Rightarrow> CircularBuffer \<Rightarrow> nat \<Rightarrow> byte list \<Rightarrow> byte list" where
  "peek_loop 0 cb tempHead out = out"
| "peek_loop (Suc k) cb tempHead out =
     peek_loop k cb ((tempHead + 1) mod cb_capacity cb) (out @ [cb_buffer cb ! tempHead])"

text \<open>\<open>peek\<close> is \<open>const\<close>: it returns the count and the bytes, and the buffer stays.\<close>

definition cb_peek :: "CircularBuffer \<Rightarrow> nat \<Rightarrow> nat \<times> byte list" where
  "cb_peek cb len =
     (let peekLength = min len (cb_size cb)
      in (peekLength, peek_loop peekLength cb (cb_head cb) []))"

text \<open>
  \<open>skip\<close> computes \<open>(head_ + skipLength) % capacity_\<close> whatever \<open>skipLength\<close> is: on a
  buffer of capacity 0 this divides by zero, and the call does not return (\<open>None\<close>).
\<close>

definition cb_skip :: "CircularBuffer \<Rightarrow> nat \<Rightarrow> CircularBuffer option" where
  "cb_skip cb len =
     (let skipLength = min len (cb_size cb)
      in if cb_capacity cb = 0 then None
         else Some (cb\<lparr>cb_head := (cb_head cb + skipLength) mod cb_capacity cb,
                       cb_size := cb_size cb - skipLength\<rparr>))"

definition cb_clear :: "CircularBuffer \<Rightarrow> CircularBuffer" where
  "cb_clear cb = cb\<lparr>cb_size := 0, cb_head := 0, cb_tail := 0\<rparr>"

text \<open>
  What the fields mean: a well-formed buffer, and the bytes it holds, oldest first.
\<close>

definition cb_inv :: "CircularBuffer \<Rightarrow> bool" where
  "cb_inv cb =
     (length (cb_buffer cb) = cb_capacity cb
      \<and> cb_size cb \<le> cb_capacity cb
      \<and> (if cb_capacity cb = 0 then cb_head cb = 0 \<and> cb_tail cb = 0
         else cb_head cb < cb_capacity cb
              \<and> cb_tail cb = (cb_head cb + cb_size cb) mod cb_capacity cb))"

definition cb_contents :: "CircularBuffer \<Rightarrow> byte list" where
  "cb_contents cb =
     map (\<lambda>i. cb_buffer cb ! ((cb_head cb + i) mod cb_capacity cb)) [0..<cb_size cb]"

section \<open>Sockets, connections, client and server (tcp\_socket.cpp, tcp\_client.cpp, tcp\_server.cpp)\<close>

text \<open>
  The lifecycle functions are modelled as one thread runs them.  What the operating system
  answers (\<open>socket\<close>, \<open>inet_pton\<close>, \<open>bind\<close>, \<open>listen\<close>, \<open>connect\<close>, \<open>select\<close>,
  \<open>getsockopt\<close>) is an argument of the model.  A \<open>std::thread\<close> member is the flag
  \<open>joinable()\<close>; a \<open>std::function\<close> callback is the flag "a callback is set", and every
  invocation of a callback is appended to a log.
\<close>

datatype ErrorCode =
    Success | InvalidSocket | ConnectionFailed | ConnectionClosed | SendFailed | ReceiveFailed
  | BindFailed | ListenFailed | AcceptFailed | InvalidAddress | Timeout | WouldBlock | SslError
  | UnknownError

datatype ConnectionState = Disconnected | Connecting | Connected | Disconnecting | Error

datatype callback_event = CalledConnected | CalledDisconnected | CalledError ErrorCode

text \<open>A \<open>socket_t\<close>: a descriptor, or \<open>INVALID_SOCKET\<close> (\<open>None\<close>).\<close>

type_synonym socket_t = "nat option"

subsection \<open>TcpSocket\<close>

record TcpSocket =
  socket_h :: socket_t
  nonBlocking :: bool

definition isValid :: "'a TcpSocket_scheme \<Rightarrow> bool" where
  "isValid s = (socket_h s \<noteq> None)"

definition sock_close :: "'a TcpSocket_scheme \<Rightarrow> 'a TcpSocket_scheme" where
  "sock_close s = (if isValid s then s\<lparr>socket_h := None\<rparr> else s)"

text \<open>
  \<open>create()\<close> takes \<open>mutex_\<close> and, when the handle is valid, calls \<open>close()\<close>, which takes
  \<open>mutex_\<close> again.  A \<open>std::mutex\<close> is not recursive: that call does not return
  (\<open>None\<close>).  \<open>os_socket\<close> is what \<open>socket(AF_INET, SOCK_STREAM, IPPROTO_TCP)\<close> returns.
\<close>

definition sock_create ::
  "socket_t \<Rightarrow> 'a TcpSocket_scheme \<Rightarrow> (bool \<times> 'a TcpSocket_scheme) option" where
  "sock_create os_socket s =
     (if isValid s then None
      else if os_socket = None then Some (False, s\<lparr>socket_h := os_socket\<rparr>)
      else Some (True, s\<lparr>socket_h := os_socket\<rparr>))"

definition setNonBlocking :: "bool \<Rightarrow> 'a TcpSocket_scheme \<Rightarrow> 'a TcpSocket_scheme" where
  "setNonBlocking nb s = (if \<not> isValid s then s else s\<lparr>nonBlocking := nb\<rparr>)"

subsection \<open>TcpConnection\<close>

record TcpConnection =
  conn_socket :: socket_t
  conn_state :: ConnectionState
  conn_shouldStop :: bool
  conn_receiveThread :: bool
  conn_onDisconnected :: bool
  conn_owned :: bool
  conn_calls :: "callback_event list"

text \<open>
  \<open>conn_owned\<close> says whether \<open>shared_from_this()\<close> succeeds (a \<open>shared_ptr\<close> still owns
  the object).  What the receive thread did to \<open>state_\<close> before \<open>close()\<close> joins it is the
  argument \<open>left\<close>: nothing, \<open>Disconnected\<close> (the peer closed) or \<open>Error\<close>.
\<close>

definition conn_close :: "ConnectionState option \<Rightarrow> TcpConnection \<Rightarrow> TcpConnection" where
  "conn_close left c =
     (let c1 = (if conn_state c \<noteq> Disconnected
                then c\<lparr>conn_state := Disconnecting, conn_shouldStop := True, conn_socket := None\<rparr>
                else c);
          c2 = (if conn_receiveThread c1
                then c1\<lparr>conn_receiveThread := False,
                        conn_state := (case left of None \<Rightarrow> conn_state c1 | Some st \<Rightarrow> st)\<rparr>
                else c1)
      in if conn_state c2 \<noteq> Disconnected then
           (if conn_onDisconnected c2 \<and> conn_owned c2
            then c2\<lparr>conn_state := Disconnected, conn_calls := conn_calls c2 @ [CalledDisconnected]\<rparr>
            else c2\<lparr>conn_state := Disconnected\<rparr>)
         else c2)"

subsection \<open>TcpClient\<close>

record TcpClient = TcpSocket +
  cl_remoteAddress :: string
  cl_remotePort :: "16 word"
  cl_state :: ConnectionState
  cl_sslEnabled :: bool
  cl_sslContext :: bool
  cl_sslHandle :: bool
  cl_receiveThread :: bool
  cl_reconnectThread :: bool
  cl_heartbeatThread :: bool
  cl_shouldStop :: bool
  cl_autoReconnect :: bool
  cl_heartbeatEnabled :: bool
  cl_onConnected :: bool
  cl_onDisconnected :: bool
  cl_onError :: bool
  cl_totalConnections :: nat
  cl_calls :: "callback_event list"

text \<open>The constructor: no socket, \<open>Disconnected\<close>, no thread, no callback.\<close>

definition newTcpClient :: TcpClient where
  "newTcpClient =
     \<lparr>socket_h = None, nonBlocking = False,
      cl_remoteAddress = [], cl_remotePort = 0, cl_state = Disconnected,
      cl_sslEnabled = False, cl_sslContext = False, cl_sslHandle = False,
      cl_receiveThread = False, cl_reconnectThread = False, cl_heartbeatThread = False,
      cl_shouldStop = False, cl_autoReconnect = False, cl_heartbeatEnabled = False,
      cl_onConnected = False, cl_onDisconnected = False, cl_onError = False,
      cl_totalConnections = 0, cl_calls = []\<rparr>"

definition cl_isConnected :: "TcpClient \<Rightarrow> bool" where
  "cl_isConnected c = (cl_state c = Connected)"

definition cl_handleError :: "ErrorCode \<Rightarrow> TcpClient \<Rightarrow> TcpClient" where
  "cl_handleError e c =
     (if cl_onError c then c\<lparr>cl_state := Error, cl_calls := cl_calls c @ [CalledError e]\<rparr>
      else c\<lparr>cl_state := Error\<rparr>)"

definition cl_setupSsl :: "TcpClient \<Rightarrow> bool" where
  "cl_setupSsl c = cl_sslContext c"

text \<open>
  \<open>disconnect()\<close>: the three \<open>join\<close>s leave the threads not joinable; \<open>cleanupSsl\<close> clears
  the handle; \<open>close()\<close> is \<open>TcpSocket::close\<close>.  The callback is invoked whenever it is
  set: no test precedes it.
\<close>

definition cl_disconnect :: "TcpClient \<Rightarrow> TcpClient" where
  "cl_disconnect c =
     (let c1 = c\<lparr>cl_state := Disconnecting, cl_shouldStop := True,
                  cl_autoReconnect := False, cl_heartbeatEnabled := False\<rparr>;
          c2 = c1\<lparr>cl_receiveThread := False, cl_reconnectThread := False,
                   cl_heartbeatThread := False\<rparr>;
          c3 = sock_close (c2\<lparr>cl_sslHandle := False\<rparr>);
          c4 = c3\<lparr>cl_state := Disconnected\<rparr>
      in if cl_onDisconnected c4 then c4\<lparr>cl_calls := cl_calls c4 @ [CalledDisconnected]\<rparr>
         else c4)"

text \<open>The answers of the operating system to one \<open>connectInternal\<close>.\<close>

datatype connect_result = ConnectDone | ConnectInProgress | ConnectRefused

datatype select_result = SelectTimeout | SelectFailed | SelectErrorSet | SelectWritable

record connect_env =
  ce_socket :: socket_t
  ce_resolve :: "string \<Rightarrow> string option"
  ce_inet_pton :: "string \<Rightarrow> bool"
  ce_connect :: connect_result
  ce_select :: select_result
  ce_so_error :: bool

text \<open>
  The wait for the connection after \<open>::connect\<close> answered \<open>EINPROGRESS\<close>: \<open>Some e\<close> is the
  error reported, \<open>None\<close> a connection made.
\<close>

definition wait_connected :: "connect_env \<Rightarrow> ErrorCode option" where
  "wait_connected env =
     (case ce_select env of
        SelectTimeout \<Rightarrow> Some Timeout
      | SelectFailed \<Rightarrow> Some ConnectionFailed
      | SelectErrorSet \<Rightarrow> Some ConnectionFailed
      | SelectWritable \<Rightarrow> (if ce_so_error env then Some ConnectionFailed else None))"

definition connect_outcome :: "connect_env \<Rightarrow> ErrorCode option" where
  "connect_outcome env =
     (case ce_connect env of
        ConnectDone \<Rightarrow> None
      | ConnectRefused \<Rightarrow> Some ConnectionFailed
      | ConnectInProgress \<Rightarrow> wait_connected env)"

text \<open>
  \<open>connectInternal\<close>.  Every failure after \<open>create()\<close> reports the error, sets the state
  \<open>Error\<close> and returns false; none of them closes the socket.

  The end of the function, once the connection is made: \<open>startReceiveThread()\<close> runs
  \<open>receiveThread_ = std::thread(...)\<close>.  Move-assigning to a \<open>std::thread\<close> that is still
  joinable calls \<open>std::terminate\<close>: the call does not return (\<open>None\<close>), and the connected
  callback that follows is not reached.
\<close>

definition cl_connected ::
  "string \<Rightarrow> 16 word \<Rightarrow> TcpClient \<Rightarrow> (bool \<times> TcpClient) option" where
  "cl_connected resolvedAddress port c =
     (let c1 = (setNonBlocking False c)
                 \<lparr>cl_remoteAddress := resolvedAddress, cl_remotePort := port\<rparr>
      in if cl_sslEnabled c1 \<and> \<not> cl_setupSsl c1
         then Some (False, (cl_handleError SslError c1)\<lparr>cl_state := Error\<rparr>)
         else if cl_receiveThread c1 then None
         else Some (True,
               (let c2 = c1\<lparr>cl_state := Connected,
                             cl_totalConnections := cl_totalConnections c1 + 1,
                             cl_receiveThread := True\<rparr>
                in if cl_onConnected c2 then c2\<lparr>cl_calls := cl_calls c2 @ [CalledConnected]\<rparr>
                   else c2)))"

text \<open>The part of \<open>connectInternal\<close> after \<open>create()\<close> succeeded.\<close>

definition cl_connect_created ::
  "connect_env \<Rightarrow> string \<Rightarrow> 16 word \<Rightarrow> TcpClient \<Rightarrow> (bool \<times> TcpClient) option" where
  "cl_connect_created env address port c =
     (let resolvedAddress = (case ce_resolve env address of None \<Rightarrow> address | Some ip \<Rightarrow> ip)
      in if \<not> ce_inet_pton env resolvedAddress
         then Some (False, (cl_handleError InvalidAddress c)\<lparr>cl_state := Error\<rparr>)
         else
           (case connect_outcome env of
              Some e \<Rightarrow>
                Some (False, (cl_handleError e (setNonBlocking True c))\<lparr>cl_state := Error\<rparr>)
            | None \<Rightarrow> cl_connected resolvedAddress port (setNonBlocking True c)))"

definition cl_connectInternal ::
  "connect_env \<Rightarrow> string \<Rightarrow> 16 word \<Rightarrow> TcpClient \<Rightarrow> (bool \<times> TcpClient) option" where
  "cl_connectInternal env address port c =
     (case sock_create (ce_socket env)
             ((if cl_isConnected c then cl_disconnect c else c)\<lparr>cl_state := Connecting\<rparr>) of
        None \<Rightarrow> None
      | Some (created, c1) \<Rightarrow>
          if \<not> created then Some (False, c1\<lparr>cl_state := Error\<rparr>)
          else cl_connect_created env address port c1)"

text \<open>
  One iteration of \<open>reconnectLoop\<close>, on the values the fields have when it runs.  The
  loop tests \<open>shouldStop_\<close>, then waits on the condition variable until the predicate
  \<open>!autoReconnect_ || shouldStop_\<close> is true, then tests \<open>shouldStop_\<close> again, and attempts
  to reconnect under \<open>autoReconnect_ && !isConnected()\<close>.
\<close>

datatype loop_step = LoopExits | LoopWaits | LoopAttempts | LoopSkips

definition reconnect_wait_predicate :: "TcpClient \<Rightarrow> bool" where
  "reconnect_wait_predicate c = (\<not> cl_autoReconnect c \<or> cl_shouldStop c)"

definition reconnectLoop_iteration :: "TcpClient \<Rightarrow> loop_step" where
  "reconnectLoop_iteration c =
     (if cl_shouldStop c then LoopExits
      else if \<not> reconnect_wait_predicate c then LoopWaits
      else if cl_shouldStop c then LoopExits
      else if cl_autoReconnect c \<and> \<not> cl_isConnected c then LoopAttempts
      else LoopSkips)"

subsection \<open>TcpServer\<close>

record TcpServer = TcpSocket +
  srv_localAddress :: string
  srv_localPort :: "16 word"
  srv_running :: bool
  srv_shouldStop :: bool
  srv_acceptThread :: bool
  srv_cleanupThread :: bool
  srv_connections :: "TcpConnection list"

definition newTcpServer :: TcpServer where
  "newTcpServer =
     \<lparr>socket_h = None, nonBlocking = False,
      srv_localAddress = [], srv_localPort = 0, srv_running = False, srv_shouldStop = False,
      srv_acceptThread = False, srv_cleanupThread = False, srv_connections = []\<rparr>"

record bind_env =
  be_socket :: socket_t
  be_inet_pton :: "string \<Rightarrow> bool"
  be_bind :: bool

text \<open>
  \<open>bind(address, port)\<close>.  The two failures after \<open>create()\<close> return false with the socket
  as \<open>create()\<close> left it.
\<close>

definition srv_bind ::
  "bind_env \<Rightarrow> string \<Rightarrow> 16 word \<Rightarrow> TcpServer \<Rightarrow> (bool \<times> TcpServer) option" where
  "srv_bind env address port s =
     (if srv_running s then Some (False, s)
      else case sock_create (be_socket env) s of
             None \<Rightarrow> None
           | Some (created, s1) \<Rightarrow>
               if \<not> created then Some (False, s1)
               else if address = [] \<or> address = ''0.0.0.0'' then
                 (if \<not> be_bind env then Some (False, s1\<lparr>srv_localAddress := ''0.0.0.0''\<rparr>)
                  else Some (True, s1\<lparr>srv_localAddress := ''0.0.0.0'', srv_localPort := port\<rparr>))
               else if \<not> be_inet_pton env address then Some (False, s1)
               else if \<not> be_bind env then Some (False, s1\<lparr>srv_localAddress := address\<rparr>)
               else Some (True, s1\<lparr>srv_localAddress := address, srv_localPort := port\<rparr>))"

text \<open>
  \<open>listen(backlog)\<close>; \<open>os_listen\<close> says whether \<open>::listen\<close> succeeded.  \<open>start\<close> assigns
  the two threads once bound and listening; as in the client, assigning to a thread that
  is still joinable calls \<open>std::terminate\<close> (\<open>None\<close>).
\<close>

definition srv_listen :: "bool \<Rightarrow> TcpServer \<Rightarrow> bool \<times> TcpServer" where
  "srv_listen os_listen s =
     (if \<not> isValid s then (False, s)
      else if \<not> os_listen then (False, s)
      else (True, s))"

definition srv_start ::
  "bind_env \<Rightarrow> bool \<Rightarrow> string \<Rightarrow> 16 word \<Rightarrow> TcpServer \<Rightarrow> (bool \<times> TcpServer) option" where
  "srv_start env os_listen address port s =
     (case srv_bind env address port s of
        None \<Rightarrow> None
      | Some (bound, s1) \<Rightarrow>
          if \<not> bound then Some (False, s1)
          else if \<not> fst (srv_listen os_listen s1) then Some (False, s1)
          else if srv_acceptThread s1 \<or> srv_cleanupThread s1 then None
          else Some (True, s1\<lparr>srv_running := True, srv_shouldStop := False,
                               srv_acceptThread := True, srv_cleanupThread := True\<rparr>))"

text \<open>
  \<open>closeAllConnections()\<close> holds \<open>connectionsMutex_\<close> while it closes each connection.  A
  connection of the registry has the callback of \<open>setupConnectionCallbacks\<close>, which runs
  \<open>handleDisconnection\<close> and so \<open>removeConnection\<close>, which takes \<open>connectionsMutex_\<close>
  again: when a \<open>close()\<close> invokes the callback the call does not return (\<open>None\<close>).
  Otherwise the registry is cleared.  The receive threads are taken to have left
  \<open>state_\<close> alone.
\<close>

fun closeAllConnections :: "TcpConnection list \<Rightarrow> TcpConnection list option" where
  "closeAllConnections [] = Some []"
| "closeAllConnections (c # cs) =
     (if conn_calls (conn_close None c) \<noteq> conn_calls c then None
      else closeAllConnections cs)"

definition srv_stop :: "TcpServer \<Rightarrow> TcpServer option" where
  "srv_stop s =
     (if \<not> srv_running s then Some s
      else case closeAllConnections (srv_connections s) of
             None \<Rightarrow> None
           | Some cs \<Rightarrow>
               Some ((sock_close (s\<lparr>srv_running := False, srv_shouldStop := True\<rparr>))
                       \<lparr>srv_acceptThread := False, srv_cleanupThread := False,
                        srv_connections := cs\<rparr>))"

section \<open>Properties of the framers\<close>

declare unframe_loop.simps [simp del] df_unframe_loop.simps [simp del]

text \<open>
  C1 (chunk invariance of the length-prefixed \<open>unframe\<close>).  The claim is that feeding the
  chunks one by one emits, in total, the messages that one call on the whole input emits.
  The loop condition \<open>buffer_.size() >= getLengthSize()\<close> is also tested while a payload
  is pending, so a payload shorter than the prefix that arrives after its header is not
  emitted by the call that completes it: with a 4-byte big-endian prefix, the chunks
  \<open>[0,0,0,3]\<close> and \<open>"abc"\<close> emit nothing, while the same seven bytes in one call emit
  \<open>"abc"\<close>.
\<close>

theorem lp_unframe_chunks_lose_message:
  "concat (fst (lp_feed (newLengthPrefixedFramer UInt32 True) [[0, 0, 0, 3], [97, 98, 99]])) = []
   \<and> fst (lp_unframe (newLengthPrefixedFramer UInt32 True) ([0, 0, 0, 3] @ [97, 98, 99]))
       = [[97, 98, 99]]"
  by (simp add: lp_unframe_def newLengthPrefixedFramer_def header_phase_def payload_phase_def
      unframe_loop.simps)

subsection \<open>Reading back a written length\<close>

lemma and255: "(x :: 'a::len word) AND 255 = take_bit 8 x"
  by (simp add: take_bit_eq_mask mask_eq_exp_minus_1)

lemma upt8: "[0..<8] = [0, 1, 2, 3, 4, 5, 6, 7::nat]"
  by code_simp

lemma byte_ranges:
  "n < 8 \<or> (8 \<le> n \<and> n < 16) \<or> (16 \<le> n \<and> n < 24) \<or> (24 \<le> n \<and> n < 32) \<or>
   (32 \<le> n \<and> n < 40) \<or> (40 \<le> n \<and> n < 48) \<or> (48 \<le> n \<and> n < 56) \<or> 56 \<le> (n::nat)"
  by arith

lemma readLength_writeLength8:
  "readLength UInt8 be (writeLength UInt8 be [] (take_bit 8 w) @ M) 0 = take_bit 8 w"
  apply simp
  apply (rule bit_word_eqI)
  apply (auto simp: bit_simps)
  done

lemma readLength_writeLength16:
  "readLength UInt16 be (writeLength UInt16 be [] (take_bit 16 w) @ M) 0 = take_bit 16 w"
  apply (cases be)
   apply (simp_all add: Let_def and255)
   apply (rule bit_word_eqI)
  subgoal for n
    using byte_ranges [of n]
    apply (elim disjE conjE)
           apply (simp_all add: bit_simps not_less less_diff_conv2)
    done
  apply (rule bit_word_eqI)
  subgoal for n
    using byte_ranges [of n]
    apply (elim disjE conjE)
           apply (simp_all add: bit_simps not_less less_diff_conv2)
    done
  done

lemma readLength_writeLength32:
  "readLength UInt32 be (writeLength UInt32 be [] (take_bit 32 w) @ M) 0 = take_bit 32 w"
  apply (cases be)
   apply (simp_all add: Let_def and255)
   apply (rule bit_word_eqI)
  subgoal for n
    using byte_ranges [of n]
    apply (elim disjE conjE)
           apply (simp_all add: bit_simps not_less less_diff_conv2)
    done
  apply (rule bit_word_eqI)
  subgoal for n
    using byte_ranges [of n]
    apply (elim disjE conjE)
           apply (simp_all add: bit_simps not_less less_diff_conv2)
    done
  done

lemma readLength_writeLength64:
  "readLength UInt64 be (writeLength UInt64 be [] w @ M) 0 = w"
  apply (cases be)
   apply (simp_all add: Let_def and255 upt8)
   apply (rule bit_word_eqI)
  subgoal for n
    using byte_ranges [of n]
    apply (elim disjE conjE)
           apply (simp_all add: bit_simps not_less less_diff_conv2)
    done
  apply (rule bit_word_eqI)
  subgoal for n
    using byte_ranges [of n]
    apply (elim disjE conjE)
           apply (simp_all add: bit_simps not_less less_diff_conv2)
    done
  done

lemma readLength_writeLength:
  assumes "take_bit (8 * getLengthSize lt) w = w"
  shows "readLength lt be (writeLength lt be [] w @ M) 0 = w"
proof (cases lt)
  case UInt8
  with assms readLength_writeLength8 [of be w M] show ?thesis by simp
next
  case UInt16
  with assms readLength_writeLength16 [of be w M] show ?thesis by simp
next
  case UInt32
  with assms readLength_writeLength32 [of be w M] show ?thesis by simp
next
  case UInt64
  with readLength_writeLength64 [of be w M] show ?thesis by simp
qed

lemma length_writeLength: "length (writeLength lt be [] w) = getLengthSize lt"
  by (cases lt) (simp_all add: Let_def)

lemma lp_unframe_frame:
  assumes "length M < 2 ^ (8 * getLengthSize lt)"
  shows "lp_unframe (newLengthPrefixedFramer lt be) (lp_frame (newLengthPrefixedFramer lt be) M)
         = ([M], newLengthPrefixedFramer lt be)"
proof -
  let ?w = "of_nat (length M) :: size_t"
  have le64: "8 * getLengthSize lt \<le> 64" by (cases lt) simp_all
  have "(2::nat) ^ (8 * getLengthSize lt) \<le> 2 ^ 64"
    using le64 by (rule power_increasing) simp
  with assms have lt64: "length M < 2 ^ 64" by linarith
  then have u: "unat ?w = length M"
    by (intro of_nat_inverse) simp_all
  have tb: "take_bit (8 * getLengthSize lt) ?w = ?w"
    using assms by (simp add: word_unat_eq_iff unsigned_take_bit_eq u take_bit_nat_eq_self_iff)
  have rl: "readLength lt be (writeLength lt be [] ?w @ M) 0 = ?w"
    using tb by (rule readLength_writeLength)
  show ?thesis
    apply (simp add: lp_unframe_def lp_frame_def newLengthPrefixedFramer_def)
    apply (subst unframe_loop.simps)
    apply (simp add: header_phase_def payload_phase_def length_writeLength rl u)
    apply (subst unframe_loop.simps)
    apply (cases lt; simp)
    done
qed


lemma findDelimiter_first:
  assumes d: "d \<noteq> []"
    and here: "take (length d) (drop p data) = d"
    and before: "\<forall>i<p. take (length d) (drop i data) \<noteq> d"
  shows "findDelimiter d data 0 = Some p"
proof -
  from here have "length (take (length d) (drop p data)) = length d"
    by (rule arg_cong)
  then have "min (length d) (length data - p) = length d" by simp
  moreover from d have "0 < length d" by simp
  ultimately have pl: "p + length d \<le> length data" by arith
  then have len: "\<not> length data < length d" by linarith
  let ?xs = "[0 ..< Suc (length data - length d)]"
  from pl have inr: "p < length ?xs" by simp
  have "find (\<lambda>i. take (length d) (drop i data) = d) ?xs = Some p"
    unfolding find_Some_iff
  proof (intro exI [of _ p] conjI allI impI)
    show "p < length ?xs" by (rule inr)
    show "take (length d) (drop (?xs ! p) data) = d"
      using inr here by (simp del: upt_Suc)
    show "p = ?xs ! p" using inr by (simp del: upt_Suc)
    fix j assume "j < p"
    with inr before show "take (length d) (drop (?xs ! j) data) \<noteq> d"
      by (simp del: upt_Suc)
  qed
  with d len show ?thesis by (simp add: findDelimiter_def)
qed

lemma df_unframe_frame:
  assumes d: "d \<noteq> []"
    and before: "\<forall>i<length M. take (length d) (drop i (M @ d)) \<noteq> d"
  shows "df_unframe (newDelimiterFramer d incl) (df_frame (newDelimiterFramer d incl) M)
         = ([if incl then M @ d else M], newDelimiterFramer d incl)"
proof -
  have f: "findDelimiter d (M @ d) 0 = Some (length M)"
    using d _ before by (rule findDelimiter_first) simp
  have e: "findDelimiter d [] 0 = None"
    using d by (simp add: findDelimiter_def)
  have step2: "df_unframe_loop \<lparr>delimiter = d, includeDelimiter = incl, df_buffer = []\<rparr> ms
      = (ms, \<lparr>delimiter = d, includeDelimiter = incl, df_buffer = []\<rparr>)" for ms
    by (subst df_unframe_loop.simps) (simp add: e)
  have step1: "df_unframe_loop \<lparr>delimiter = d, includeDelimiter = incl, df_buffer = M @ d\<rparr> []
      = df_unframe_loop \<lparr>delimiter = d, includeDelimiter = incl, df_buffer = []\<rparr>
          [M @ (if incl then d else [])]"
    by (subst df_unframe_loop.simps) (simp add: f)
  show ?thesis
    by (simp add: df_unframe_def df_frame_def newDelimiterFramer_def step1 step2)
qed


text \<open>
  C2 (round trip), as amended.  The claim is \<open>unframe(frame(M)) = [M]\<close> for every message
  and every framer.  It holds for the length-prefixed framer when the length of \<open>M\<close> fits
  the prefix (\<open>writeLength\<close> casts the length to the prefix type), and for the delimiter
  framer when the delimiter is not empty and does not occur in \<open>M\<close> followed by the
  delimiter before the end of \<open>M\<close>; with \<open>includeDelimiter\<close> the emitted message is
  \<open>M\<close> followed by the delimiter.
\<close>

theorem frame_unframe_roundtrip:
  "(length M < 2 ^ (8 * getLengthSize lt) \<longrightarrow>
      fst (lp_unframe (newLengthPrefixedFramer lt be) (lp_frame (newLengthPrefixedFramer lt be) M))
        = [M])
   \<and> (d \<noteq> [] \<and> (\<forall>i<length M. take (length d) (drop i (M @ d)) \<noteq> d) \<longrightarrow>
      fst (df_unframe (newDelimiterFramer d incl) (df_frame (newDelimiterFramer d incl) M))
        = [if incl then M @ d else M])"
proof (intro conjI impI)
  assume "length M < 2 ^ (8 * getLengthSize lt)"
  then show "fst (lp_unframe (newLengthPrefixedFramer lt be)
      (lp_frame (newLengthPrefixedFramer lt be) M)) = [M]"
    by (simp add: lp_unframe_frame)
next
  assume "d \<noteq> [] \<and> (\<forall>i<length M. take (length d) (drop i (M @ d)) \<noteq> d)"
  then have "df_unframe (newDelimiterFramer d incl) (df_frame (newDelimiterFramer d incl) M)
         = ([if incl then M @ d else M], newDelimiterFramer d incl)"
    by (intro df_unframe_frame) simp_all
  then show "fst (df_unframe (newDelimiterFramer d incl) (df_frame (newDelimiterFramer d incl) M))
        = [if incl then M @ d else M]"
    by simp
qed

text \<open>The round trip at a 2-byte little-endian prefix and at the delimiter CR LF.\<close>

theorem frame_unframe_roundtrip_witness:
  "fst (lp_unframe (newLengthPrefixedFramer UInt16 False)
         (lp_frame (newLengthPrefixedFramer UInt16 False) [97, 98, 99])) = [[97, 98, 99]]
   \<and> fst (df_unframe (newDelimiterFramer [13, 10] False)
         (df_frame (newDelimiterFramer [13, 10] False) [97, 98, 99])) = [[97, 98, 99]]"
proof -
  let ?M = "[97, 98, 99 :: byte]" and ?d = "[13, 10 :: byte]"
  note t = frame_unframe_roundtrip [of ?M UInt16 False ?d False]
  have h1: "length ?M < 2 ^ (8 * getLengthSize UInt16)" by simp
  have h2: "?d \<noteq> []" by simp
  have h3: "\<forall>i<length ?M. take (length ?d) (drop i (?M @ ?d)) \<noteq> ?d"
    by (simp add: numeral_3_eq_3 less_Suc_eq)
  from t h1 have c1: "fst (lp_unframe (newLengthPrefixedFramer UInt16 False)
         (lp_frame (newLengthPrefixedFramer UInt16 False) ?M)) = [?M]"
    by blast
  from t h2 h3 have c2: "fst (df_unframe (newDelimiterFramer ?d False)
         (df_frame (newDelimiterFramer ?d False) ?M)) = [if False then ?M @ ?d else ?M]"
    by blast
  from c1 c2 show ?thesis by simp
qed

text \<open>
  The claim as stated fails: a 256-byte message under a 1-byte prefix (the prefix wraps
  to 0), \<open>includeDelimiter = true\<close>, an empty delimiter, and a message that contains the
  delimiter.
\<close>

theorem frame_unframe_roundtrip_counterexample:
  "fst (lp_unframe (newLengthPrefixedFramer UInt8 True)
         (lp_frame (newLengthPrefixedFramer UInt8 True) (255 # replicate 255 0)))
     \<noteq> [255 # replicate 255 0]
   \<and> fst (df_unframe (newDelimiterFramer [10] True)
         (df_frame (newDelimiterFramer [10] True) [97])) \<noteq> [[97]]
   \<and> fst (df_unframe (newDelimiterFramer [] False)
         (df_frame (newDelimiterFramer [] False) [97])) \<noteq> [[97]]
   \<and> fst (df_unframe (newDelimiterFramer [10] False)
         (df_frame (newDelimiterFramer [10] False) [97, 10, 98])) \<noteq> [[97, 10, 98]]"
proof (intro conjI)
  show "fst (lp_unframe (newLengthPrefixedFramer UInt8 True)
         (lp_frame (newLengthPrefixedFramer UInt8 True) (255 # replicate 255 0)))
     \<noteq> [255 # replicate 255 0]"
    by code_simp
  show "fst (df_unframe (newDelimiterFramer [10] True)
         (df_frame (newDelimiterFramer [10] True) [97])) \<noteq> [[97]]"
    by (simp add: df_unframe_def df_frame_def newDelimiterFramer_def df_unframe_loop.simps
        findDelimiter_def)
  show "fst (df_unframe (newDelimiterFramer [] False)
         (df_frame (newDelimiterFramer [] False) [97])) \<noteq> [[97]]"
    by (simp add: df_unframe_def df_frame_def newDelimiterFramer_def df_unframe_loop.simps
        findDelimiter_def)
  show "fst (df_unframe (newDelimiterFramer [10] False)
         (df_frame (newDelimiterFramer [10] False) [97, 10, 98])) \<noteq> [[97, 10, 98]]"
    by (simp add: df_unframe_def df_frame_def newDelimiterFramer_def df_unframe_loop.simps
        findDelimiter_def)
qed

section \<open>Properties of the RateLimiter\<close>

text \<open>
  C6 (the bucket invariant).  The claim is that the available bytes stay between 0 and
  \<open>bucketSize\<close> under every sequence of operations.  \<open>setBucketSize\<close> stores the new size
  and leaves \<open>availableBytes_\<close> as it is: a limiter constructed with rate 100 and bucket
  100 holds 100 tokens, and after \<open>setBucketSize(50)\<close> \<open>getAvailableBytes()\<close> still returns
  100, above the bucket size 50.
\<close>

theorem setBucketSize_leaves_available_above_bucket:
  "getAvailableBytes
     (rl_run fp [(0, SetBucketSize 50), (0, GetAvailableBytes)] (newRateLimiter 0 100 100)) = 100
   \<and> bucketSize
     (rl_run fp [(0, SetBucketSize 50), (0, GetAvailableBytes)] (newRateLimiter 0 100 100)) = 50"
  by (simp add: rl_run_def setBucketSize_def getAvailableBytes_def newRateLimiter_def)

text \<open>
  Every other operation keeps the invariant, and so does \<open>setBucketSize\<close> when the new
  size is not below the available bytes.
\<close>

lemma refillBucket_inv:
  "availableBytes s \<le> bucketSize s \<Longrightarrow>
   availableBytes (refillBucket fp now s) \<le> bucketSize (refillBucket fp now s)"
  by (simp add: refillBucket_def)

lemma refillBucket_bucketSize [simp]: "bucketSize (refillBucket fp now s) = bucketSize s"
  by (simp add: refillBucket_def)

lemma allowBytes_inv:
  assumes "availableBytes s \<le> bucketSize s"
  shows "availableBytes (snd (allowBytes fp now n s)) \<le> bucketSize (snd (allowBytes fp now n s))"
proof -
  let ?r = "refillBucket fp now s"
  have r: "availableBytes ?r \<le> bucketSize ?r"
    using assms by (rule refillBucket_inv)
  show ?thesis
  proof (cases "n \<le> availableBytes ?r")
    case True
    then have "availableBytes ?r - n \<le> availableBytes ?r"
      by (simp add: word_sub_le)
    with r True show ?thesis by (simp add: allowBytes_def)
  next
    case False
    with r show ?thesis by (simp add: allowBytes_def)
  qed
qed

lemma waitForBytes_inv:
  "availableBytes s \<le> bucketSize s \<Longrightarrow>
   availableBytes (snd (waitForBytes fp polls n s)) \<le> bucketSize (snd (waitForBytes fp polls n s))"
proof (induction polls arbitrary: s)
  case Nil
  then show ?case by simp
next
  case (Cons now polls)
  from Cons.prems have a: "availableBytes (snd (allowBytes fp now n s))
      \<le> bucketSize (snd (allowBytes fp now n s))"
    by (rule allowBytes_inv)
  show ?case
  proof (cases "fst (allowBytes fp now n s)")
    case True
    with a show ?thesis by simp
  next
    case False
    with Cons.IH [OF a] show ?thesis by simp
  qed
qed

lemma rl_step_inv:
  assumes "availableBytes s \<le> bucketSize s"
    and "\<And>b. op = SetBucketSize b \<Longrightarrow> availableBytes s \<le> b"
  shows "availableBytes (rl_step fp (now, op) s) \<le> bucketSize (rl_step fp (now, op) s)"
  using assms
  by (cases op)
     (simp_all add: allowBytes_inv waitForBytes_inv setRate_def setBucketSize_def rl_reset_def)


lemma newRateLimiter_inv:
  "availableBytes (newRateLimiter now bps bucket) \<le> bucketSize (newRateLimiter now bps bucket)"
  by (simp add: newRateLimiter_def)

lemma rl_run_inv:
  assumes "availableBytes s \<le> bucketSize s"
    and "\<And>now b. (now, SetBucketSize b) \<notin> set calls"
  shows "availableBytes (rl_run fp calls s) \<le> bucketSize (rl_run fp calls s)"
  using assms
proof (induction calls arbitrary: s)
  case Nil
  then show ?case by (simp add: rl_run_def)
next
  case (Cons call calls)
  obtain now op where call: "call = (now, op)" by (cases call)
  from Cons.prems(2) call have ns: "op \<noteq> SetBucketSize b" for b by auto
  have "availableBytes (rl_step fp (now, op) s) \<le> bucketSize (rl_step fp (now, op) s)"
  proof (rule rl_step_inv [OF Cons.prems(1)])
    fix b assume "op = SetBucketSize b"
    with ns [of b] show "availableBytes s \<le> b" by simp
  qed
  moreover from Cons.prems(2) have "\<And>now b. (now, SetBucketSize b) \<notin> set calls" by auto
  ultimately have "availableBytes (rl_run fp calls (rl_step fp (now, op) s))
      \<le> bucketSize (rl_run fp calls (rl_step fp (now, op) s))"
    by (rule Cons.IH)
  then show ?case by (simp add: rl_run_def call)
qed

lemma unat_refilledTokens:
  assumes inv: "availableBytes s \<le> bucketSize s"
    and nowrap: "unat (availableBytes s)
        + unat (tokensToAdd fp (elapsedMillis now s) (bytesPerSecond s)) < 2 ^ 64"
  shows "unat (refilledTokens fp now s)
     = min (unat (bucketSize s))
           (unat (availableBytes s)
            + (if 0 < elapsedMillis now s
               then unat (tokensToAdd fp (elapsedMillis now s) (bytesPerSecond s)) else 0))"
proof (cases "0 < elapsedMillis now s")
  case True
  let ?t = "tokensToAdd fp (elapsedMillis now s) (bytesPerSecond s)"
  from nowrap have "unat (availableBytes s + ?t) = unat (availableBytes s) + unat ?t"
    by (simp add: unat_add_lem [THEN iffD1])
  with True show ?thesis
    by (simp add: refilledTokens_def refillBucket_def min_def word_le_nat_alt)
next
  case False
  with inv show ?thesis
    by (simp add: refilledTokens_def refillBucket_def min_def word_le_nat_alt)
qed

lemma allowBytes_result:
  "allowBytes fp now n s =
     (if n \<le> refilledTokens fp now s
      then (True, (refillBucket fp now s)\<lparr>availableBytes := refilledTokens fp now s - n\<rparr>)
      else (False, refillBucket fp now s))"
  by (simp add: allowBytes_def refilledTokens_def)

subsection \<open>The rounding error of the double computations\<close>

text \<open>
  Each operation rounds once, to a relative error of at most \<open>2^-53\<close>.  The five
  roundings of \<open>(a / b) * c\<close> leave the result within \<open>6 * 2^-53\<close> of the exact
  quotient, and so, when \<open>a * c\<close> is at most \<open>2^50\<close>, within \<open>3/4\<close> of a unit of
  \<open>1 / b\<close>: the integer part is the integer quotient, or one less when the division is
  exact and the result was rounded down.
\<close>

lemmas fl_eval = round53_def rne_def bitlen.simps Let_def d_of_nat_def muldiv_def

lemma bitlen_bounds: "0 < n \<Longrightarrow> 2 ^ (bitlen n - 1) \<le> n \<and> n < 2 ^ bitlen n"
proof (induction n rule: bitlen.induct)
  case (1 n)
  show ?case
  proof (cases "n div 2 = 0")
    case True
    with "1.prems" have "n = 1" by presburger
    then show ?thesis by (simp add: bitlen.simps [of "Suc 0"] bitlen.simps [of 0])
  next
    case False
    then have pos: "0 < n div 2" by simp
    from "1.prems" have n0: "n \<noteq> 0" by simp
    from "1.IH" [OF n0 pos]
    have ih: "2 ^ (bitlen (n div 2) - 1) \<le> n div 2" "n div 2 < 2 ^ bitlen (n div 2)"
      by simp_all
    have k: "0 < bitlen (n div 2)" using False by (simp add: bitlen.simps [of "n div 2"])
    have b: "bitlen n = Suc (bitlen (n div 2))" using n0 by (simp add: bitlen.simps [of n])
    from k have "(2::nat) ^ bitlen (n div 2) = 2 * 2 ^ (bitlen (n div 2) - 1)"
      by (cases "bitlen (n div 2)") simp_all
    with ih(1) have lo: "2 ^ bitlen (n div 2) \<le> n" by linarith
    from ih(2) have hi: "n < 2 * 2 ^ bitlen (n div 2)" by linarith
    from lo hi show ?thesis by (simp add: b)
  qed
qed

lemma rne_between: "p div q \<le> rne p q \<and> rne p q \<le> p div q + 1"
  by (simp add: rne_def)

lemma rne_ge: "0 < q \<Longrightarrow> A * q \<le> p \<Longrightarrow> A \<le> rne p q"
proof -
  assume q: "0 < q" and "A * q \<le> p"
  then have "A \<le> p div q" by (simp add: less_eq_div_iff_mult_less_eq)
  with rne_between [of p q] show ?thesis by linarith
qed

lemma rne_le: "0 < q \<Longrightarrow> p \<le> B * q \<Longrightarrow> rne p q \<le> B"
proof -
  assume q: "0 < q" and pb: "p \<le> B * q"
  show ?thesis
  proof (cases "p mod q = 0")
    case True
    then have "rne p q = p div q" using q by (simp add: rne_def)
    moreover have "p div q \<le> (B * q) div q" using pb by (rule div_le_mono)
    moreover have "(B * q) div q = B" using q by simp
    ultimately show ?thesis by simp
  next
    case False
    have "p div q < B"
    proof (rule ccontr)
      assume "\<not> p div q < B"
      then have "B \<le> p div q" by simp
      then have "B * q \<le> (p div q) * q" by simp
      moreover have "(p div q) * q + p mod q = p" by simp
      ultimately show False using pb False by linarith
    qed
    with rne_between [of p q] show ?thesis by linarith
  qed
qed

lemma rne_error:
  assumes q: "0 < q"
  shows "\<bar>real (rne p q) - real p / real q\<bar> \<le> 1 / 2"
proof -
  let ?f = "p div q" and ?r = "p mod q"
  have "real ?f * real q + real ?r = real (?f * q + ?r)"
    by (simp only: of_nat_add of_nat_mult)
  also have "?f * q + ?r = p" by simp
  finally have p: "real p = real ?f * real q + real ?r" by simp
  from q have rq: "?r < q" by simp
  have x: "real p / real q = real ?f + real ?r / real q"
    using q by (simp add: p field_simps)
  have "(rne p q = ?f \<and> 2 * ?r \<le> q) \<or> (rne p q = ?f + 1 \<and> q \<le> 2 * ?r)"
    unfolding rne_def by (cases "2 * ?r < q"; cases "q < 2 * ?r"; cases "even ?f") simp_all
  then show ?thesis
  proof (elim disjE conjE)
    assume 1: "rne p q = ?f" "2 * ?r \<le> q"
    then have "2 * real ?r \<le> real q" by linarith
    then have "real ?r / real q \<le> 1 / 2" using q by (simp add: field_simps)
    moreover have "0 \<le> real ?r / real q" by simp
    ultimately show ?thesis using 1 by (simp add: x)
  next
    assume 2: "rne p q = ?f + 1" "q \<le> 2 * ?r"
    then have "real q \<le> 2 * real ?r" by linarith
    then have "1 / 2 \<le> real ?r / real q" using q by (simp add: field_simps)
    moreover from rq q have "real ?r / real q \<le> 1" by (simp add: field_simps)
    ultimately show ?thesis using 2 by (simp add: x)
  qed
qed

lemma powi_split: "(2::real) powi s = 2 ^ nat s / 2 ^ nat (- s)"
proof (cases "0 \<le> s")
  case True
  then show ?thesis by (simp add: power_int_def)
next
  case False
  then have "nat s = 0" "\<not> 0 \<le> s" by simp_all
  then show ?thesis by (simp add: power_int_def power_one_over)
qed

lemma powi_add2: "(2::real) powi a * 2 powi b = 2 powi (a + b)"
  by (simp add: power_int_add)

lemma bitlen_pos: "0 < n \<Longrightarrow> 0 < bitlen n"
  by (simp add: bitlen.simps [of n])

lemma bitlen_real:
  assumes n: "0 < n"
  shows "2 powi (int (bitlen n) - 1) \<le> real n" and "real n < 2 powi int (bitlen n)"
proof -
  from bitlen_bounds [OF n] have lo: "2 ^ (bitlen n - 1) \<le> n" and hi: "n < 2 ^ bitlen n"
    by simp_all
  from bitlen_pos [OF n] have e: "int (bitlen n) - 1 = int (bitlen n - 1)" by simp
  have "(2::real) powi (int (bitlen n) - 1) = 2 powi int (bitlen n - 1)" by (simp only: e)
  also have "\<dots> = 2 ^ (bitlen n - 1)" by (rule power_int_of_nat)
  also have "\<dots> = real (2 ^ (bitlen n - 1))" by simp
  also have "\<dots> \<le> real n" using lo by (simp only: of_nat_le_iff)
  finally show "2 powi (int (bitlen n) - 1) \<le> real n" .
  have "real n < real (2 ^ bitlen n)" using hi by (simp only: of_nat_less_iff)
  then show "real n < 2 powi int (bitlen n)" by simp
qed

lemma scaled_le_iff:
  assumes q: "0 < q"
  shows "(q * 2 ^ nat s \<le> p * 2 ^ nat (- s)) = (2 powi s \<le> real p / real q)"
proof -
  have "(q * 2 ^ nat s \<le> p * 2 ^ nat (- s)) = (real (q * 2 ^ nat s) \<le> real (p * 2 ^ nat (- s)))"
    by (simp only: of_nat_le_iff)
  also have "\<dots> = (real q * 2 ^ nat s \<le> real p * 2 ^ nat (- s))" by simp
  also have "\<dots> = (2 ^ nat s / 2 ^ nat (- s) \<le> real p / real q)"
    using q by (simp add: pos_le_divide_eq pos_divide_le_eq mult.commute)
  finally show ?thesis by (simp only: powi_split)
qed

lemma flog_bounds:
  assumes p: "0 < p" and q: "0 < q"
  shows "2 powi flog p q \<le> real p / real q" and "real p / real q < 2 powi (flog p q + 1)"
proof -
  let ?s = "int (bitlen p) - int (bitlen q)"
  let ?x = "real p / real q"
  have rq: "0 < real q" using q by simp
  have lo: "2 powi (?s - 1) \<le> ?x"
  proof -
    have "2 powi (?s - 1) * real q \<le> 2 powi (?s - 1) * 2 powi int (bitlen q)"
      using bitlen_real(2) [OF q] by (intro mult_left_mono) simp_all
    also have "\<dots> = 2 powi (?s - 1 + int (bitlen q))" by (rule powi_add2)
    also have "?s - 1 + int (bitlen q) = int (bitlen p) - 1" by simp
    also have "(2::real) powi (int (bitlen p) - 1) \<le> real p" by (rule bitlen_real(1) [OF p])
    finally show ?thesis using rq by (simp only: pos_le_divide_eq)
  qed
  have hi: "?x < 2 powi (?s + 1)"
  proof -
    have "real p < 2 powi int (bitlen p)" by (rule bitlen_real(2) [OF p])
    also have "int (bitlen p) = ?s + 1 + (int (bitlen q) - 1)" by simp
    also have "(2::real) powi (?s + 1 + (int (bitlen q) - 1)) = 2 powi (?s + 1) * 2 powi (int (bitlen q) - 1)"
      by (rule powi_add2 [symmetric])
    also have "\<dots> \<le> 2 powi (?s + 1) * real q"
      using bitlen_real(1) [OF q] by (intro mult_left_mono) simp_all
    finally show ?thesis using rq by (simp only: pos_divide_less_eq)
  qed
  have f: "flog p q = (if 2 powi ?s \<le> ?x then ?s else ?s - 1)"
    unfolding flog_def Let_def scaled_le_iff [OF q] ..
  show "2 powi flog p q \<le> ?x"
  proof (cases "2 powi ?s \<le> ?x")
    case True
    then show ?thesis by (simp only: f if_True)
  next
    case False
    then show ?thesis using lo by (simp only: f if_False)
  qed
  show "?x < 2 powi (flog p q + 1)"
  proof (cases "2 powi ?s \<le> ?x")
    case True
    then show ?thesis using hi by (simp only: f if_True)
  next
    case False
    then have "?x < 2 powi ?s" by simp
    moreover have "?s - 1 + 1 = ?s" by simp
    ultimately show ?thesis using False by (simp only: f if_False)
  qed
qed

lemma round53_flog:
  "round53 p q = (let e = flog p q - 52; m = rne (p * 2 ^ nat (- e)) (q * 2 ^ nat e)
                  in if m = 2 ^ 53 then (2 ^ 52, e + 1) else (m, e))"
  by (simp only: round53_def flog_def Let_def)

lemma round53_spec:
  assumes p: "0 < p" and q: "0 < q" and r: "round53 p q = (m, e)"
  shows "0 < m" and "\<bar>real m * 2 powi e - real p / real q\<bar> \<le> (real p / real q) / 2 ^ 53"
proof -
  define e0 where "e0 = flog p q - 52"
  define P where "P = p * 2 ^ nat (- e0)"
  define Q where "Q = q * 2 ^ nat e0"
  define m0 where "m0 = rne P Q"
  let ?x = "real p / real q"
  have Qpos: "0 < Q" using q by (simp add: Q_def)
  have rQ: "0 < real Q" using Qpos by simp
  have r': "(m, e) = (if m0 = 2 ^ 53 then (2 ^ 52, e0 + 1) else (m0, e0))"
    using r unfolding round53_flog Let_def e0_def [symmetric] P_def [symmetric]
      Q_def [symmetric] m0_def [symmetric] by simp
  have ratio: "real P / real Q = ?x * 2 powi (- e0)"
    by (simp add: P_def Q_def powi_split [of "- e0"])
  have f52: "flog p q + (- e0) = 52" and f53: "flog p q + 1 + (- e0) = 53"
    by (simp_all add: e0_def)
  have lo: "2 ^ 52 \<le> real P / real Q"
  proof -
    have "(2::real) powi flog p q * 2 powi (- e0) \<le> ?x * 2 powi (- e0)"
      using flog_bounds(1) [OF p q] by (intro mult_right_mono) simp_all
    then have "(2::real) powi 52 \<le> ?x * 2 powi (- e0)"
      by (simp only: powi_add2 f52)
    then show ?thesis by (simp only: ratio) simp
  qed
  have hi: "real P / real Q < 2 ^ 53"
  proof -
    have "?x * 2 powi (- e0) < (2::real) powi (flog p q + 1) * 2 powi (- e0)"
      using flog_bounds(2) [OF p q] by (intro mult_strict_right_mono) simp_all
    then have "?x * 2 powi (- e0) < (2::real) powi 53"
      by (simp only: powi_add2 f53)
    then show ?thesis by (simp only: ratio) simp
  qed
  have m0lo: "2 ^ 52 \<le> m0"
    unfolding m0_def
  proof (rule rne_ge [OF Qpos])
    from lo rQ have "2 ^ 52 * real Q \<le> real P" by (simp only: pos_le_divide_eq)
    then have "real (2 ^ 52 * Q) \<le> real P" by simp
    then show "2 ^ 52 * Q \<le> P" by (simp only: of_nat_le_iff)
  qed
  have err0: "\<bar>real m0 - real P / real Q\<bar> \<le> 1 / 2"
    unfolding m0_def by (rule rne_error [OF Qpos])
  have val: "real m * 2 powi e = real m0 * 2 powi e0"
  proof (cases "m0 = 2 ^ 53")
    case True
    with r' have "m = 2 ^ 52" "e = e0 + 1" by simp_all
    then show ?thesis using True by (simp add: power_int_add)
  next
    case False
    with r' show ?thesis by simp
  qed
  show "0 < m"
  proof (cases "m0 = 2 ^ 53")
    case True
    with r' show ?thesis by simp
  next
    case False
    with r' have "m = m0" by simp
    with m0lo show ?thesis by simp
  qed
  have one: "(2::real) powi (- e0) * 2 powi e0 = 1"
    by (simp only: powi_add2) simp
  have "(real m0 - real P / real Q) * 2 powi e0 = real m0 * 2 powi e0 - ?x * (2 powi (- e0) * 2 powi e0)"
    by (simp only: ratio) (simp add: algebra_simps)
  then have d: "real m0 * 2 powi e0 - ?x = (real m0 - real P / real Q) * 2 powi e0"
    by (simp only: one mult_1_right)
  have "\<bar>real m0 * 2 powi e0 - ?x\<bar> = \<bar>real m0 - real P / real Q\<bar> * 2 powi e0"
    by (simp add: d abs_mult)
  also have "\<dots> \<le> 1 / 2 * 2 powi e0"
    using err0 by (intro mult_right_mono) simp_all
  also have "\<dots> \<le> ?x / 2 ^ 53"
  proof -
    have "(2::real) powi (flog p q) = 2 powi 52 * 2 powi e0"
      by (simp only: powi_add2) (simp add: e0_def)
    with flog_bounds(1) [OF p q] have "2 ^ 52 * 2 powi e0 \<le> ?x" by simp
    then show ?thesis by simp
  qed
  finally show "\<bar>real m * 2 powi e - ?x\<bar> \<le> ?x / 2 ^ 53" by (simp only: val)
qed

lemma near_abs: "\<bar>v - x\<bar> \<le> x / 2 ^ 53 \<Longrightarrow> near v x"
  unfolding near_def by (simp only: abs_le_iff) (simp add: algebra_simps)

lemma near_scale:
  assumes n: "near v x" and k: "0 \<le> k"
  shows "near (v * k) (x * k)"
proof -
  from n have 1: "x * (1 - 1 / 2 ^ 53) \<le> v" and 2: "v \<le> x * (1 + 1 / 2 ^ 53)"
    by (simp_all only: near_def)
  from 1 k have "x * (1 - 1 / 2 ^ 53) * k \<le> v * k" by (rule mult_right_mono)
  moreover from 2 k have "v * k \<le> x * (1 + 1 / 2 ^ 53) * k" by (rule mult_right_mono)
  ultimately show ?thesis unfolding near_def by (simp only: mult.assoc mult.commute [of _ k] mult.left_commute [of _ k]) 
qed

lemma round53_near:
  assumes "0 < p" and "0 < q" and "round53 p q = (m, e)"
  shows "0 < m" and "near (real m * 2 powi e) (real p / real q)"
  using round53_spec [OF assms] by (simp_all only: near_abs)

lemma dval_Dbl: "dval (Dbl m e) = real m * 2 powi e"
  by (simp add: dval_def)

lemma d_of_nat_near:
  assumes n: "0 < n"
  shows "\<exists>m e. d_of_nat n = Dbl m e \<and> 0 < m \<and> near (dval (Dbl m e)) (real n)"
proof -
  obtain m e where r: "round53 n 1 = (m, e)" by (cases "round53 n 1")
  have one: "0 < (1::nat)" by simp
  from round53_near [OF n one r] have "0 < m" and "near (real m * 2 powi e) (real n)"
    by simp_all
  moreover have "d_of_nat n = Dbl m e" using n r by (simp add: d_of_nat_def)
  ultimately show ?thesis by (simp only: dval_Dbl) blast
qed

lemma d_div_near:
  assumes m1: "0 < m1" and m2: "0 < m2"
  shows "\<exists>m e. d_div (Dbl m1 e1) (Dbl m2 e2) = Dbl m e \<and> 0 < m \<and>
           near (dval (Dbl m e)) (dval (Dbl m1 e1) / dval (Dbl m2 e2))"
proof -
  obtain m e where r: "round53 m1 m2 = (m, e)" by (cases "round53 m1 m2")
  from round53_near [OF m1 m2 r]
  have m: "0 < m" and nr: "near (real m * 2 powi e) (real m1 / real m2)" by simp_all
  have k: "0 \<le> (2::real) powi (e1 - e2)" by simp
  from near_scale [OF nr k]
  have "near (real m * 2 powi e * 2 powi (e1 - e2)) (real m1 / real m2 * 2 powi (e1 - e2))" .
  moreover have "real m * 2 powi e * 2 powi (e1 - e2) = real m * 2 powi (e + e1 - e2)"
  proof -
    have "real m * 2 powi e * 2 powi (e1 - e2) = real m * (2 powi e * 2 powi (e1 - e2))"
      by (simp only: mult.assoc)
    also have "\<dots> = real m * 2 powi (e + (e1 - e2))" by (simp only: powi_add2)
    also have "e + (e1 - e2) = e + e1 - e2" by simp
    finally show ?thesis .
  qed
  moreover have "real m1 / real m2 * 2 powi (e1 - e2)
      = (real m1 * 2 powi e1) / (real m2 * 2 powi e2)"
    by (simp add: power_int_diff)
  ultimately have "near (real m * 2 powi (e + e1 - e2))
      ((real m1 * 2 powi e1) / (real m2 * 2 powi e2))" by simp
  moreover have "d_div (Dbl m1 e1) (Dbl m2 e2) = Dbl m (e + e1 - e2)"
    using m1 m2 r by simp
  ultimately show ?thesis using m by (simp only: dval_Dbl) blast
qed

lemma d_mul_near:
  assumes m1: "0 < m1" and m2: "0 < m2"
  shows "\<exists>m e. d_mul (Dbl m1 e1) (Dbl m2 e2) = Dbl m e \<and> 0 < m \<and>
           near (dval (Dbl m e)) (dval (Dbl m1 e1) * dval (Dbl m2 e2))"
proof -
  obtain m e where r: "round53 (m1 * m2) 1 = (m, e)" by (cases "round53 (m1 * m2) 1")
  have p: "0 < m1 * m2" using m1 m2 by simp
  have one: "0 < (1::nat)" by simp
  from round53_near [OF p one r]
  have m: "0 < m" and nr: "near (real m * 2 powi e) (real m1 * real m2)" by simp_all
  have k: "0 \<le> (2::real) powi (e1 + e2)" by simp
  from near_scale [OF nr k]
  have "near (real m * 2 powi e * 2 powi (e1 + e2)) (real m1 * real m2 * 2 powi (e1 + e2))" .
  moreover have "real m * 2 powi e * 2 powi (e1 + e2) = real m * 2 powi (e + e1 + e2)"
  proof -
    have "real m * 2 powi e * 2 powi (e1 + e2) = real m * (2 powi e * 2 powi (e1 + e2))"
      by (simp only: mult.assoc)
    also have "\<dots> = real m * 2 powi (e + (e1 + e2))" by (simp only: powi_add2)
    also have "e + (e1 + e2) = e + e1 + e2" by simp
    finally show ?thesis .
  qed
  moreover have "real m1 * real m2 * 2 powi (e1 + e2)
      = (real m1 * 2 powi e1) * (real m2 * 2 powi e2)"
    by (simp add: power_int_add)
  ultimately have "near (real m * 2 powi (e + e1 + e2))
      ((real m1 * 2 powi e1) * (real m2 * 2 powi e2))" by simp
  moreover have "d_mul (Dbl m1 e1) (Dbl m2 e2) = Dbl m (e + e1 + e2)"
    using m1 m2 r by simp
  ultimately show ?thesis using m by (simp only: dval_Dbl) blast
qed

lemma chain_bounds:
  fixes a b c A B C D Y k l :: real
  assumes a: "0 < a" and b: "0 < b" and c: "0 < c" and l: "0 < l" and k: "0 < k"
    and A: "a * l \<le> A" "A \<le> a * k"
    and B: "b * l \<le> B" "B \<le> b * k"
    and C: "c * l \<le> C" "C \<le> c * k"
    and D: "(A / B) * l \<le> D" "D \<le> (A / B) * k"
    and Y: "(D * C) * l \<le> Y" "Y \<le> (D * C) * k"
  shows "(a * c / b) * (l ^ 4 / k) \<le> Y" and "Y \<le> (a * c / b) * (k ^ 4 / l)"
proof -
  have al: "0 < a * l" and bl: "0 < b * l" and cl: "0 < c * l"
    and ak: "0 < a * k" and bk: "0 < b * k" and ck: "0 < c * k"
    using a b c l k by simp_all
  have Ap: "0 < A" using al A(1) by linarith
  have Bp: "0 < B" using bl B(1) by linarith
  have Cp: "0 < C" using cl C(1) by linarith
  have ABp: "0 < A / B" using Ap Bp by simp
  have q_hi: "A / B \<le> (a * k) / (b * l)"
    using Ap A(2) bl B(1) by (intro frac_le) simp_all
  have q_lo: "(a * l) / (b * k) \<le> A / B"
    using al A(1) Bp B(2) by (intro frac_le) simp_all
  have qlp: "0 < (a * l) / (b * k)" using al bk by simp
  have D_hi: "D \<le> (a * k) / (b * l) * k"
  proof -
    have "(A / B) * k \<le> (a * k) / (b * l) * k" using q_hi k by (intro mult_right_mono) simp_all
    with D(2) show ?thesis by linarith
  qed
  have D_lo: "(a * l) / (b * k) * l \<le> D"
  proof -
    have "(a * l) / (b * k) * l \<le> (A / B) * l" using q_lo l by (intro mult_right_mono) simp_all
    with D(1) show ?thesis by linarith
  qed
  have Dlp: "0 < (a * l) / (b * k) * l" using qlp l by (rule mult_pos_pos)
  have Dp: "0 < D" using Dlp D_lo by linarith
  have DC_hi: "D * C \<le> ((a * k) / (b * l) * k) * (c * k)"
    using D_hi C(2) Dp Cp by (intro mult_mono) simp_all
  have DC_lo: "((a * l) / (b * k) * l) * (c * l) \<le> D * C"
    using D_lo C(1) Dlp cl by (intro mult_mono) simp_all
  have "Y \<le> (((a * k) / (b * l) * k) * (c * k)) * k"
  proof -
    have "(D * C) * k \<le> (((a * k) / (b * l) * k) * (c * k)) * k"
      using DC_hi k by (intro mult_right_mono) simp_all
    with Y(2) show ?thesis by linarith
  qed
  also have "(((a * k) / (b * l) * k) * (c * k)) * k = (a * c / b) * (k ^ 4 / l)"
    by (simp add: power4_eq_xxxx)
  finally show "Y \<le> (a * c / b) * (k ^ 4 / l)" .
  have "(a * c / b) * (l ^ 4 / k) = (((a * l) / (b * k) * l) * (c * l)) * l"
    by (simp add: power4_eq_xxxx)
  also have "\<dots> \<le> Y"
  proof -
    have "(((a * l) / (b * k) * l) * (c * l)) * l \<le> (D * C) * l"
      using DC_lo l by (intro mult_right_mono) simp_all
    with Y(1) show ?thesis by linarith
  qed
  finally show "(a * c / b) * (l ^ 4 / k) \<le> Y" .
qed

lemma ulp_chain_hi: "((1::real) + 1 / 2 ^ 53) ^ 4 / (1 - 1 / 2 ^ 53) \<le> 1 + 6 / 2 ^ 53"
  by (simp add: field_simps)

lemma ulp_chain_lo: "(1::real) - 6 / 2 ^ 53 \<le> (1 - 1 / 2 ^ 53) ^ 4 / (1 + 1 / 2 ^ 53)"
  by (simp add: field_simps)

lemma muldiv_value:
  assumes a: "0 < a" and b: "0 < b" and c: "0 < c"
  shows "\<exists>m e. d_mul (d_div (d_of_nat a) (d_of_nat b)) (d_of_nat c) = Dbl m e \<and>
     (real a * real c / real b) * (1 - 6 / 2 ^ 53) \<le> dval (Dbl m e) \<and>
     dval (Dbl m e) \<le> (real a * real c / real b) * (1 + 6 / 2 ^ 53)"
proof -
  from d_of_nat_near [OF a] obtain ma ea
    where A: "d_of_nat a = Dbl ma ea" "0 < ma" "near (dval (Dbl ma ea)) (real a)" by blast
  from d_of_nat_near [OF b] obtain mb eb
    where B: "d_of_nat b = Dbl mb eb" "0 < mb" "near (dval (Dbl mb eb)) (real b)" by blast
  from d_of_nat_near [OF c] obtain mc ec
    where C: "d_of_nat c = Dbl mc ec" "0 < mc" "near (dval (Dbl mc ec)) (real c)" by blast
  from d_div_near [OF A(2) B(2)] obtain md ed
    where D: "d_div (Dbl ma ea) (Dbl mb eb) = Dbl md ed" "0 < md"
      "near (dval (Dbl md ed)) (dval (Dbl ma ea) / dval (Dbl mb eb))" by blast
  from d_mul_near [OF D(2) C(2)] obtain m e
    where Y: "d_mul (Dbl md ed) (Dbl mc ec) = Dbl m e" "0 < m"
      "near (dval (Dbl m e)) (dval (Dbl md ed) * dval (Dbl mc ec))" by blast
  let ?l = "(1::real) - 1 / 2 ^ 53" and ?k = "(1::real) + 1 / 2 ^ 53"
  let ?x = "real a * real c / real b"
  have l: "0 < ?l" and k: "0 < ?k" by simp_all
  have ra: "0 < real a" and rb: "0 < real b" and rc: "0 < real c" using a b c by simp_all
  have x: "0 \<le> ?x" by simp
  note cb = chain_bounds [OF ra rb rc l k
      conjunct1 [OF A(3) [unfolded near_def]] conjunct2 [OF A(3) [unfolded near_def]]
      conjunct1 [OF B(3) [unfolded near_def]] conjunct2 [OF B(3) [unfolded near_def]]
      conjunct1 [OF C(3) [unfolded near_def]] conjunct2 [OF C(3) [unfolded near_def]]
      conjunct1 [OF D(3) [unfolded near_def]] conjunct2 [OF D(3) [unfolded near_def]]
      conjunct1 [OF Y(3) [unfolded near_def]] conjunct2 [OF Y(3) [unfolded near_def]]]
  have "?x * (1 - 6 / 2 ^ 53) \<le> ?x * (?l ^ 4 / ?k)"
    using ulp_chain_lo x by (rule mult_left_mono)
  with cb(1) have lo: "?x * (1 - 6 / 2 ^ 53) \<le> dval (Dbl m e)" by linarith
  have "?x * (?k ^ 4 / ?l) \<le> ?x * (1 + 6 / 2 ^ 53)"
    using ulp_chain_hi x by (rule mult_left_mono)
  with cb(2) have hi: "dval (Dbl m e) \<le> ?x * (1 + 6 / 2 ^ 53)" by linarith
  have "d_mul (d_div (d_of_nat a) (d_of_nat b)) (d_of_nat c) = Dbl m e"
    by (simp only: A(1) B(1) C(1) D(1) Y(1))
  with lo hi show ?thesis by blast
qed

lemma d_trunc_bounds:
  assumes "d_trunc (Dbl m e) = Some r"
  shows "real r \<le> dval (Dbl m e)" and "dval (Dbl m e) < real r + 1"
proof -
  have "real r \<le> dval (Dbl m e) \<and> dval (Dbl m e) < real r + 1"
  proof (cases "0 \<le> e")
    case True
    with assms have "r = m * 2 ^ nat e" by simp
    moreover have "dval (Dbl m e) = real m * 2 ^ nat e"
      using True by (simp add: dval_Dbl power_int_def)
    ultimately show ?thesis by simp
  next
    case False
    define k :: nat where "k = 2 ^ nat (- e)"
    have kp: "0 < k" by (simp add: k_def)
    from False assms have r: "r = m div k" by (simp add: k_def)
    from False have "nat e = 0" by simp
    then have v: "dval (Dbl m e) = real m / real k"
      by (simp add: dval_Dbl powi_split [of e] k_def)
    have "r * k \<le> m" by (simp add: r)
    then have "real (r * k) \<le> real m" by (simp only: of_nat_le_iff)
    then have 1: "real r * real k \<le> real m" by simp
    have "m < (r + 1) * k" using kp by (simp add: r dividend_less_div_times)
    then have "real m < real ((r + 1) * k)" by (simp only: of_nat_less_iff)
    then have 2: "real m < (real r + 1) * real k" by (simp add: algebra_simps)
    from 1 2 kp show ?thesis by (simp add: v pos_le_divide_eq pos_divide_less_eq)
  qed
  then show "real r \<le> dval (Dbl m e)" and "dval (Dbl m e) < real r + 1" by simp_all
qed

lemma d_of_nat_Dbl: "\<exists>m e. d_of_nat n = Dbl m e"
  by (simp add: d_of_nat_def split: prod.split)

lemma muldiv_zero_left: "0 < b \<Longrightarrow> muldiv 0 b c = Some 0"
proof -
  assume b: "0 < b"
  from d_of_nat_near [OF b] obtain mb eb where B: "d_of_nat b = Dbl mb eb" "0 < mb" by blast
  have "d_of_nat 0 = Dbl 0 0" by (simp add: d_of_nat_def)
  then have "d_div (d_of_nat 0) (d_of_nat b) = Dbl 0 0" using B by simp
  moreover have "d_mul (Dbl 0 0) (d_of_nat c) = Dbl 0 0"
    using d_of_nat_Dbl [of c] by auto
  ultimately show ?thesis by (simp add: muldiv_def)
qed

lemma muldiv_zero_right: "0 < a \<Longrightarrow> 0 < b \<Longrightarrow> muldiv a b 0 = Some 0"
proof -
  assume a: "0 < a" and b: "0 < b"
  from d_of_nat_near [OF a] obtain ma ea where A: "d_of_nat a = Dbl ma ea" "0 < ma" by blast
  from d_of_nat_near [OF b] obtain mb eb where B: "d_of_nat b = Dbl mb eb" "0 < mb" by blast
  from d_div_near [OF A(2) B(2)] obtain md ed
    where D: "d_div (Dbl ma ea) (Dbl mb eb) = Dbl md ed" by blast
  have z: "d_of_nat 0 = Dbl 0 0" by (simp add: d_of_nat_def)
  have "muldiv a b 0 = d_trunc (d_mul (Dbl md ed) (Dbl 0 0))"
    by (simp only: muldiv_def A(1) B(1) D z)
  then show ?thesis by simp
qed


lemma muldiv_spec:
  assumes b: "0 < b" and N: "a * c \<le> 2 ^ 50"
  shows "\<exists>r. muldiv a b c = Some r \<and>
           (r = a * c div b \<or> (b dvd a * c \<and> r + 1 = a * c div b))"
proof (cases "a = 0 \<or> c = 0")
  case True
  then show ?thesis
  proof
    assume "a = 0"
    with muldiv_zero_left [OF b] show ?thesis by simp
  next
    assume c0: "c = 0"
    show ?thesis
    proof (cases "a = 0")
      case True
      with muldiv_zero_left [OF b] show ?thesis by simp
    next
      case False
      then have "0 < a" by simp
      from muldiv_zero_right [OF this b] c0 show ?thesis by simp
    qed
  qed
next
  case False
  then have a: "0 < a" and c: "0 < c" by simp_all
  from muldiv_value [OF a b c] obtain m e
    where Y: "d_mul (d_div (d_of_nat a) (d_of_nat b)) (d_of_nat c) = Dbl m e"
      and lo: "(real a * real c / real b) * (1 - 6 / 2 ^ 53) \<le> dval (Dbl m e)"
      and hi: "dval (Dbl m e) \<le> (real a * real c / real b) * (1 + 6 / 2 ^ 53)" by blast
  obtain r where r: "d_trunc (Dbl m e) = Some r" by (cases "0 \<le> e") simp_all
  have md: "muldiv a b c = Some r" by (simp only: muldiv_def Y r)
  note tb = d_trunc_bounds [OF r]
  define n where "n = a * c"
  define q where "q = n div b"
  define t where "t = n mod b"
  define y where "y = dval (Dbl m e)"
  have rb: "0 < real b" using b by simp
  have n50: "real n \<le> 2 ^ 50"
  proof -
    from N have "real n \<le> real (2 ^ 50)" unfolding n_def by (simp only: of_nat_le_iff)
    then show ?thesis by simp
  qed
  have rn: "real a * real c = real n" by (simp add: n_def)
  have "real q * real b + real t = real (q * b + t)" by (simp only: of_nat_add of_nat_mult)
  also have "q * b + t = n" by (simp add: q_def t_def)
  finally have nq: "real n = real q * real b + real t" by simp
  have tb': "t < b" using b by (simp add: t_def)
  have slack: "real n * (6 / 2 ^ 53) \<le> 3 / 4" using n50 by simp
  have ylo: "real n - 3 / 4 \<le> y * real b"
  proof -
    from lo have "(real n / real b) * (1 - 6 / 2 ^ 53) \<le> y" by (simp only: rn y_def)
    then have "(real n / real b) * (1 - 6 / 2 ^ 53) * real b \<le> y * real b"
      using rb by (intro mult_right_mono) simp_all
    moreover have "(real n / real b) * (1 - 6 / 2 ^ 53) * real b = real n - real n * (6 / 2 ^ 53)"
      using rb by (simp add: algebra_simps)
    ultimately show ?thesis using slack by linarith
  qed
  have yhi: "y * real b \<le> real n + 3 / 4"
  proof -
    from hi have "y \<le> (real n / real b) * (1 + 6 / 2 ^ 53)" by (simp only: rn y_def)
    then have "y * real b \<le> (real n / real b) * (1 + 6 / 2 ^ 53) * real b"
      using rb by (intro mult_right_mono) simp_all
    moreover have "(real n / real b) * (1 + 6 / 2 ^ 53) * real b = real n + real n * (6 / 2 ^ 53)"
      using rb by (simp add: algebra_simps)
    ultimately show ?thesis using slack by linarith
  qed
  have r1: "real r * real b \<le> y * real b"
    using tb(1) rb unfolding y_def by (intro mult_right_mono) simp_all
  have r2: "y * real b < (real r + 1) * real b"
    using tb(2) rb unfolding y_def by (intro mult_strict_right_mono) simp_all
  have up: "real r * real b < real q * real b + real t + 1" using r1 yhi nq by linarith
  have dn: "real q * real b + real t - 1 < (real r + 1) * real b" using r2 ylo nq by linarith
  have up': "r * b < q * b + t + 1"
  proof -
    have "real (r * b) < real (q * b + t + 1)" using up by simp
    then show ?thesis by (simp only: of_nat_less_iff)
  qed
  have dn': "q * b + t < (r + 1) * b + 1"
  proof -
    have "real (q * b + t) < real ((r + 1) * b + 1)" using dn by (simp add: algebra_simps)
    then show ?thesis by (simp only: of_nat_less_iff)
  qed
  have rq: "r \<le> q"
  proof (rule ccontr)
    assume "\<not> r \<le> q"
    then have "q + 1 \<le> r" by simp
    then have "(q + 1) * b \<le> r * b" by (rule mult_le_mono1)
    with up' tb' show False by (simp add: algebra_simps)
  qed
  show ?thesis
  proof (cases "t = 0")
    case True
    then have dv: "b dvd a * c" unfolding t_def n_def by (simp add: dvd_eq_mod_eq_0)
    have "q \<le> r + 1"
    proof (rule ccontr)
      assume "\<not> q \<le> r + 1"
      then have "r + 2 \<le> q" by simp
      then have "(r + 2) * b \<le> q * b" by (rule mult_le_mono1)
      with dn' True b show False by (simp add: algebra_simps)
    qed
    with rq have "r = q \<or> r + 1 = q" by linarith
    with dv md show ?thesis unfolding q_def n_def by blast
  next
    case False
    have "q \<le> r"
    proof (rule ccontr)
      assume "\<not> q \<le> r"
      then have "r + 1 \<le> q" by simp
      then have "(r + 1) * b \<le> q * b" by (rule mult_le_mono1)
      with dn' False show False by (simp add: algebra_simps)
    qed
    with rq have "r = q" by simp
    with md show ?thesis unfolding q_def n_def by blast
  qed
qed

subsection \<open>The tokens to add and the delay\<close>

text \<open>
  The two expressions at some operands.  \<open>290 / 1000.0\<close> is rounded down, and the product
  with 100 stays below 29: 28 tokens are added for 290 ms at 100 bytes per second, and
  the delay for a deficit of 201 bytes at that rate is 2009 ms.
\<close>

lemma muldiv_examples:
  "muldiv 500 1000 100 = Some 50"
  "muldiv 50 100 1000 = Some 500"
  "muldiv 1000 1000 1000 = Some 1000"
  "muldiv 290 1000 100 = Some 28"
  "muldiv 201 100 1000 = Some 2009"
  by (simp_all add: fl_eval)

lemma ieee_tokensToAdd_value:
  assumes n: "elapsed * unat rate \<le> 2 ^ 50"
  shows "\<exists>t. ieee_tokensToAdd elapsed rate = Some t
     \<and> (unat t = elapsed * unat rate div 1000
         \<or> (1000 dvd elapsed * unat rate \<and> unat t + 1 = elapsed * unat rate div 1000))"
proof -
  have b: "0 < (1000::nat)" by simp
  from muldiv_spec [OF b n] obtain r
    where m: "muldiv elapsed 1000 (unat rate) = Some r"
      and r: "r = elapsed * unat rate div 1000
              \<or> (1000 dvd elapsed * unat rate \<and> r + 1 = elapsed * unat rate div 1000)"
    by blast
  have "elapsed * unat rate div 1000 \<le> elapsed * unat rate" by simp
  with n r have "r \<le> 2 ^ 50" by linarith
  moreover have "(2::nat) ^ 50 < 2 ^ 64" by simp
  ultimately have lt: "r < 2 ^ 64" by linarith
  then have u: "unat (of_nat r :: size_t) = r" by (simp add: unat_of_nat)
  from m lt have "ieee_tokensToAdd elapsed rate = Some (of_nat r)"
    by (simp add: ieee_tokensToAdd_def)
  with r u show ?thesis by auto
qed


lemma tokensToAdd_ieee_arith:
  "ieee_tokensToAdd elapsed rate = Some t \<Longrightarrow> tokensToAdd ieee_arith elapsed rate = t"
  by (simp add: ieee_arith_def)


text \<open>
  The tokens \<open>refillBucket\<close> adds: the integer part of \<open>elapsed * rate / 1000\<close> for the
  whole milliseconds elapsed, or one less when the division is exact.
\<close>

lemma tokensToAdd_value:
  assumes "elapsed * unat rate \<le> 2 ^ 50"
  shows "unat (tokensToAdd ieee_arith elapsed rate) = elapsed * unat rate div 1000
     \<or> (1000 dvd elapsed * unat rate
         \<and> unat (tokensToAdd ieee_arith elapsed rate) + 1 = elapsed * unat rate div 1000)"
  using ieee_tokensToAdd_value [OF assms] by (auto simp: tokensToAdd_ieee_arith)

text \<open>
  C7 (\<open>allowBytes\<close>).  The claim is that \<open>allowBytes(n)\<close> refills to
  \<open>min(bucketSize, tokens + elapsed_seconds * bytesPerSecond)\<close> and grants \<open>n\<close> bytes
  exactly when that count is at least \<open>n\<close>.  \<open>refillBucket\<close> computes
  \<open>availableBytes_ + tokensToAdd\<close> in \<open>size_t\<close>, where the sum wraps around, and takes
  the minimum afterwards.  A limiter constructed (at time 2 s) with rate 1000 and bucket
  size \<open>SIZE_MAX\<close> (18446744073709551615) holds \<open>SIZE_MAX\<close> tokens.  One second later
  (\<open>1000 / 1000.0 * 1000\<close> is exactly 1000) the sum \<open>SIZE_MAX + 1000\<close> wraps to 999,
  which the minimum keeps: \<open>allowBytes(1000)\<close> returns false and the full bucket is left
  with 999 tokens, where the claimed count is \<open>min(SIZE_MAX, SIZE_MAX + 1000) = SIZE_MAX\<close>
  and 1000 bytes are to be granted.

  The refill, and with it the minimum, is also skipped as long as less than a
  millisecond has elapsed: after \<open>RateLimiter(100, 100)\<close> and \<open>setBucketSize(50)\<close>,
  \<open>allowBytes(80)\<close> 999999 ns after the construction returns true and leaves 20 tokens
  and the time of the last refill, where the claimed count is \<open>min(50, 100 + 0) = 50\<close>
  and 80 bytes are to be refused.

  The example of the claim does hold: with rate 100 and bucket size 100, when no time
  has elapsed \<open>allowBytes(100)\<close> succeeds and \<open>allowBytes(1)\<close> then fails.
\<close>

theorem allowBytes_refill_wraps_around:
  "newRateLimiter 2000000000 1000 18446744073709551615
     = \<lparr>bytesPerSecond = 1000, bucketSize = 18446744073709551615,
        availableBytes = 18446744073709551615, lastRefill = 2000000000\<rparr>
   \<and> elapsedMillis 3000000000 (newRateLimiter 2000000000 1000 18446744073709551615) = 1000
   \<and> ieee_tokensToAdd 1000 1000 = Some 1000
   \<and> allowBytes ieee_arith 3000000000 1000
        (newRateLimiter 2000000000 1000 18446744073709551615)
     = (False, \<lparr>bytesPerSecond = 1000, bucketSize = 18446744073709551615,
                availableBytes = 999, lastRefill = 3000000000\<rparr>)
   \<and> allowBytes ieee_arith 2000999999 80 (setBucketSize 50 (newRateLimiter 2000000000 100 100))
     = (True, \<lparr>bytesPerSecond = 100, bucketSize = 50, availableBytes = 20,
               lastRefill = 2000000000\<rparr>)
   \<and> fst (allowBytes ieee_arith t0 100 (newRateLimiter t0 100 100))
   \<and> \<not> fst (allowBytes ieee_arith t0 1
              (snd (allowBytes ieee_arith t0 100 (newRateLimiter t0 100 100))))"
proof (intro conjI)
  have t: "ieee_tokensToAdd 1000 1000 = Some 1000"
    by (simp add: ieee_tokensToAdd_def muldiv_examples)
  then have a: "tokensToAdd ieee_arith 1000 1000 = 1000"
    by (rule tokensToAdd_ieee_arith)
  show "newRateLimiter 2000000000 1000 18446744073709551615
     = \<lparr>bytesPerSecond = 1000, bucketSize = 18446744073709551615,
        availableBytes = 18446744073709551615, lastRefill = 2000000000\<rparr>"
    by (simp add: newRateLimiter_def)
  show "elapsedMillis 3000000000 (newRateLimiter 2000000000 1000 18446744073709551615) = 1000"
    by (simp add: elapsedMillis_def newRateLimiter_def)
  show "ieee_tokensToAdd 1000 1000 = Some 1000" by (rule t)
  show "allowBytes ieee_arith 3000000000 1000
        (newRateLimiter 2000000000 1000 18446744073709551615)
     = (False, \<lparr>bytesPerSecond = 1000, bucketSize = 18446744073709551615,
                availableBytes = 999, lastRefill = 3000000000\<rparr>)"
    by (simp add: allowBytes_def refillBucket_def elapsedMillis_def newRateLimiter_def a)
  show "allowBytes ieee_arith 2000999999 80 (setBucketSize 50 (newRateLimiter 2000000000 100 100))
     = (True, \<lparr>bytesPerSecond = 100, bucketSize = 50, availableBytes = 20,
               lastRefill = 2000000000\<rparr>)"
    by (simp add: allowBytes_def refillBucket_def elapsedMillis_def newRateLimiter_def
        setBucketSize_def)
  show "fst (allowBytes ieee_arith t0 100 (newRateLimiter t0 100 100))"
    by (simp add: allowBytes_def refillBucket_def elapsedMillis_def newRateLimiter_def)
  show "\<not> fst (allowBytes ieee_arith t0 1
              (snd (allowBytes ieee_arith t0 100 (newRateLimiter t0 100 100))))"
    by (simp add: allowBytes_def refillBucket_def elapsedMillis_def newRateLimiter_def)
qed

text \<open>
  Away from these two cases the refill is the claimed one.  On a limiter whose tokens do
  not exceed the bucket size, and when the sum of the tokens and the tokens to add does
  not wrap around, \<open>allowBytes(n)\<close> refills to \<open>min(bucketSize, tokens + tokensToAdd)\<close>,
  where the tokens to add are those for the whole milliseconds elapsed since the last
  refill (none when less than a millisecond elapsed); it then returns true and debits
  exactly \<open>n\<close> when the refilled count is at least \<open>n\<close>, and otherwise returns false and
  leaves the refilled count.  The time of the last refill becomes the time of the call
  when a whole millisecond has elapsed, and stays otherwise.
\<close>

lemma allowBytes_without_wrap:
  assumes inv: "availableBytes s \<le> bucketSize s"
    and nowrap: "unat (availableBytes s)
          + unat (tokensToAdd fp (elapsedMillis now s) (bytesPerSecond s)) < 2 ^ 64"
  defines "refilled \<equiv>
             min (unat (bucketSize s))
                 (unat (availableBytes s)
                  + (if 0 < elapsedMillis now s
                     then unat (tokensToAdd fp (elapsedMillis now s) (bytesPerSecond s)) else 0))"
  shows "unat (refilledTokens fp now s) = refilled"
    and "unat n \<le> refilled \<Longrightarrow>
           fst (allowBytes fp now n s)
           \<and> unat (availableBytes (snd (allowBytes fp now n s))) = refilled - unat n"
    and "refilled < unat n \<Longrightarrow>
           \<not> fst (allowBytes fp now n s)
           \<and> unat (availableBytes (snd (allowBytes fp now n s))) = refilled"
    and "lastRefill (snd (allowBytes fp now n s))
           = (if 0 < elapsedMillis now s then now else lastRefill s)"
    and "bytesPerSecond (snd (allowBytes fp now n s)) = bytesPerSecond s"
    and "bucketSize (snd (allowBytes fp now n s)) = bucketSize s"
proof -
  from inv nowrap show u: "unat (refilledTokens fp now s) = refilled"
    unfolding refilled_def by (rule unat_refilledTokens)
  show "fst (allowBytes fp now n s)
      \<and> unat (availableBytes (snd (allowBytes fp now n s))) = refilled - unat n"
    if "unat n \<le> refilled"
  proof -
    from that have "unat n \<le> unat (refilledTokens fp now s)"
      by (simp only: u)
    then have le: "n \<le> refilledTokens fp now s"
      by (simp add: word_le_nat_alt)
    then have "unat (refilledTokens fp now s - n) = unat (refilledTokens fp now s) - unat n"
      by (rule unat_sub)
    with le have "fst (allowBytes fp now n s)
      \<and> unat (availableBytes (snd (allowBytes fp now n s)))
          = unat (refilledTokens fp now s) - unat n"
      by (simp add: allowBytes_result)
    then show ?thesis by (simp only: u)
  qed
  show "\<not> fst (allowBytes fp now n s)
      \<and> unat (availableBytes (snd (allowBytes fp now n s))) = refilled"
    if "refilled < unat n"
  proof -
    from that have "unat (refilledTokens fp now s) < unat n"
      by (simp only: u)
    then have nle: "\<not> n \<le> refilledTokens fp now s"
      by (simp add: word_le_nat_alt)
    then have "\<not> fst (allowBytes fp now n s)
      \<and> unat (availableBytes (snd (allowBytes fp now n s))) = unat (refilledTokens fp now s)"
      by (simp add: allowBytes_result refilledTokens_def)
    with u show ?thesis by metis
  qed
  show "lastRefill (snd (allowBytes fp now n s))
           = (if 0 < elapsedMillis now s then now else lastRefill s)"
    by (simp add: allowBytes_def refillBucket_def)
  show "bytesPerSecond (snd (allowBytes fp now n s)) = bytesPerSecond s"
    by (simp add: allowBytes_def refillBucket_def)
  show "bucketSize (snd (allowBytes fp now n s)) = bucketSize s"
    by (simp add: allowBytes_def)
qed




section \<open>The delimiter framer with an empty delimiter\<close>

lemma findDelimiter_empty: "findDelimiter [] data startPos = None"
  by (simp add: findDelimiter_def)

lemma df_unframe_empty_delimiter:
  "delimiter f = [] \<Longrightarrow> df_unframe f data = ([], f\<lparr>df_buffer := df_buffer f @ data\<rparr>)"
  by (simp add: df_unframe_def df_unframe_loop.simps findDelimiter_empty)

lemma df_feed_empty_delimiter:
  "delimiter f = [] \<Longrightarrow>
   df_feed f chunks = (replicate (length chunks) [], f\<lparr>df_buffer := df_buffer f @ concat chunks\<rparr>)"
proof (induction chunks arbitrary: f)
  case Nil
  then show ?case by simp
next
  case (Cons c cs)
  let ?f1 = "f\<lparr>df_buffer := df_buffer f @ c\<rparr>"
  from Cons.prems have "delimiter ?f1 = []" by simp
  from Cons.IH [OF this] Cons.prems show ?case
    by (simp add: df_unframe_empty_delimiter)
qed

text \<open>
  C10 (empty delimiter).  With an empty delimiter \<open>frame\<close> returns the message unchanged,
  \<open>isComplete\<close> is false for every input, and \<open>unframe\<close> emits nothing and appends the
  input to the buffer, on one call and on any sequence of calls.
\<close>

theorem empty_delimiter_never_emits:
  "df_frame (f\<lparr>delimiter := []\<rparr>) M = M
   \<and> \<not> df_isComplete (f\<lparr>delimiter := []\<rparr>) data
   \<and> df_unframe (f\<lparr>delimiter := []\<rparr>) data
       = ([], f\<lparr>delimiter := [], df_buffer := df_buffer f @ data\<rparr>)
   \<and> fst (df_feed (newDelimiterFramer [] incl) chunks) = replicate (length chunks) []
   \<and> df_buffer (snd (df_feed (newDelimiterFramer [] incl) chunks)) = concat chunks"
  by (simp add: df_frame_def df_isComplete_def findDelimiter_empty df_unframe_empty_delimiter
      df_feed_empty_delimiter newDelimiterFramer_def)

section \<open>Properties of the CircularBuffer\<close>

lemma ring_index_distinct:
  fixes h c i j :: nat
  assumes "i < j" "j < c + i"
  shows "(h + i) mod c \<noteq> (h + j) mod c"
proof
  assume "(h + i) mod c = (h + j) mod c"
  then have "(h + j) mod c = (h + i) mod c" by simp
  moreover from assms have "h + i \<le> h + j" by simp
  ultimately have "c dvd (h + j) - (h + i)"
    by (simp add: mod_eq_dvd_iff_nat)
  then have "c dvd j - i" by simp
  moreover from assms have "0 < j - i" "j - i < c" by simp_all
  ultimately show False by (auto dest: dvd_imp_le)
qed

lemma cb_contents_length [simp]: "length (cb_contents cb) = cb_size cb"
  by (simp add: cb_contents_def)

lemma newCircularBuffer_inv: "cb_inv (newCircularBuffer c)"
  by (simp add: cb_inv_def newCircularBuffer_def)

lemma push_byte_inv:
  assumes "cb_inv cb" "cb_size cb < cb_capacity cb"
  shows "cb_inv (push_byte x cb)"
  using assms by (auto simp: cb_inv_def push_byte_def mod_Suc_eq)

lemma push_byte_contents:
  assumes inv: "cb_inv cb" and space: "cb_size cb < cb_capacity cb"
  shows "cb_contents (push_byte x cb) = cb_contents cb @ [x]"
proof -
  let ?c = "cb_capacity cb" and ?h = "cb_head cb" and ?n = "cb_size cb"
  from inv space have c: "0 < ?c" and len: "length (cb_buffer cb) = ?c"
    and tail: "cb_tail cb = (?h + ?n) mod ?c"
    by (auto simp: cb_inv_def)
  have old: "(cb_buffer cb)[cb_tail cb := x] ! ((?h + i) mod ?c) = cb_buffer cb ! ((?h + i) mod ?c)"
    if "i < ?n" for i
  proof -
    from that space have "(?h + i) mod ?c \<noteq> (?h + ?n) mod ?c"
      by (intro ring_index_distinct) simp_all
    then show ?thesis by (simp add: tail)
  qed
  have new: "(cb_buffer cb)[cb_tail cb := x] ! ((?h + ?n) mod ?c) = x"
    using c len by (simp add: tail)
  show ?thesis
    by (simp add: cb_contents_def push_byte_def old new)
qed

lemma write_loop_correct:
  "cb_inv cb \<Longrightarrow> cb_size cb + length xs \<le> cb_capacity cb \<Longrightarrow>
   cb_inv (write_loop xs cb)
   \<and> cb_contents (write_loop xs cb) = cb_contents cb @ xs
   \<and> cb_size (write_loop xs cb) = cb_size cb + length xs
   \<and> cb_capacity (write_loop xs cb) = cb_capacity cb"
proof (induction xs arbitrary: cb)
  case Nil
  then show ?case by simp
next
  case (Cons x xs)
  from Cons.prems have space: "cb_size cb < cb_capacity cb" by simp
  with Cons.prems have inv': "cb_inv (push_byte x cb)"
    by (intro push_byte_inv)
  have sz: "cb_size (push_byte x cb) = cb_size cb + 1"
    and cap: "cb_capacity (push_byte x cb) = cb_capacity cb"
    by (simp_all add: push_byte_def)
  from Cons.prems sz cap have "cb_size (push_byte x cb) + length xs \<le> cb_capacity (push_byte x cb)"
    by simp
  from Cons.IH [OF inv' this] push_byte_contents [OF Cons.prems(1) space, of x] sz cap
  show ?case by simp
qed

lemma pop_byte_inv:
  assumes "cb_inv cb" "0 < cb_size cb"
  shows "cb_inv (pop_byte cb)"
proof -
  let ?c = "cb_capacity cb" and ?h = "cb_head cb" and ?n = "cb_size cb"
  from assms have c: "0 < ?c" by (auto simp: cb_inv_def)
  have "((?h + 1) mod ?c + (?n - 1)) mod ?c = ((?h + 1) + (?n - 1)) mod ?c"
    by (simp add: mod_add_left_eq)
  also from assms have "(?h + 1) + (?n - 1) = ?h + ?n" by simp
  finally have "((?h + 1) mod ?c + (?n - 1)) mod ?c = (?h + ?n) mod ?c" .
  with assms c show ?thesis
    by (auto simp: cb_inv_def pop_byte_def)
qed

lemma pop_byte_contents:
  assumes inv: "cb_inv cb" and ne: "0 < cb_size cb"
  shows "cb_contents cb = cb_buffer cb ! cb_head cb # cb_contents (pop_byte cb)"
proof -
  let ?c = "cb_capacity cb" and ?h = "cb_head cb" and ?n = "cb_size cb"
  let ?f = "\<lambda>i. cb_buffer cb ! ((?h + i) mod ?c)"
  from inv ne have c: "0 < ?c" and h: "?h < ?c" by (auto simp: cb_inv_def)
  from ne have "[0..<?n] = 0 # map Suc [0..<?n - 1]"
    by (metis Suc_pred' map_Suc_upt upt_conv_Cons)
  then have "map ?f [0..<?n] = ?f 0 # map (\<lambda>i. ?f (Suc i)) [0..<?n - 1]"
    by (simp add: comp_def)
  moreover have "?f 0 = cb_buffer cb ! ?h" using h by simp
  moreover have "?f (Suc i) = cb_buffer cb ! (((?h + 1) mod ?c + i) mod ?c)" for i
    by (simp add: mod_add_left_eq)
  ultimately show ?thesis
    by (simp add: cb_contents_def pop_byte_def)
qed

lemma read_loop_correct:
  "cb_inv cb \<Longrightarrow> k \<le> cb_size cb \<Longrightarrow>
   fst (read_loop k cb out) = out @ take k (cb_contents cb)
   \<and> cb_inv (snd (read_loop k cb out))
   \<and> cb_contents (snd (read_loop k cb out)) = drop k (cb_contents cb)
   \<and> cb_size (snd (read_loop k cb out)) = cb_size cb - k
   \<and> cb_capacity (snd (read_loop k cb out)) = cb_capacity cb"
proof (induction k arbitrary: cb out)
  case 0
  then show ?case by simp
next
  case (Suc k)
  from Suc.prems have ne: "0 < cb_size cb" by simp
  with Suc.prems have inv': "cb_inv (pop_byte cb)" by (intro pop_byte_inv)
  have sz: "cb_size (pop_byte cb) = cb_size cb - 1"
    and cap: "cb_capacity (pop_byte cb) = cb_capacity cb"
    by (simp_all add: pop_byte_def)
  from Suc.prems sz have k: "k \<le> cb_size (pop_byte cb)" by simp
  note c = pop_byte_contents [OF Suc.prems(1) ne]
  from Suc.IH [OF inv' k, of "out @ [cb_buffer cb ! cb_head cb]"] sz cap
  show ?case
    by (simp add: c)
qed


lemma peek_loop_correct:
  "th < cb_capacity cb \<Longrightarrow>
   peek_loop k cb th out
     = out @ map (\<lambda>i. cb_buffer cb ! ((th + i) mod cb_capacity cb)) [0..<k]"
proof (induction k arbitrary: th out)
  case 0
  then show ?case by simp
next
  case (Suc k)
  let ?c = "cb_capacity cb"
  let ?f = "\<lambda>t i. cb_buffer cb ! ((t + i) mod ?c)"
  from Suc.prems have c: "0 < ?c" by simp
  then have th': "(th + 1) mod ?c < ?c" by simp
  have "[0..<Suc k] = 0 # map Suc [0..<k]"
    by (simp add: upt_conv_Cons map_Suc_upt del: upt_Suc)
  then have "map (?f th) [0..<Suc k] = ?f th 0 # map (\<lambda>i. ?f th (Suc i)) [0..<k]"
    by (simp add: comp_def del: upt_Suc)
  moreover have "?f th 0 = cb_buffer cb ! th" using Suc.prems by simp
  moreover have "?f th (Suc i) = ?f ((th + 1) mod ?c) i" for i
    by (simp add: mod_add_left_eq)
  ultimately have "map (?f th) [0..<Suc k]
      = cb_buffer cb ! th # map (?f ((th + 1) mod ?c)) [0..<k]"
    by (simp del: upt_Suc)
  with Suc.IH [OF th', of "out @ [cb_buffer cb ! th]"] show ?case
    by (simp del: upt_Suc)
qed

lemma cb_peek_correct:
  assumes "cb_inv cb"
  shows "cb_peek cb n = (min n (cb_size cb), take (min n (cb_size cb)) (cb_contents cb))"
proof (cases "cb_capacity cb = 0")
  case True
  with assms have "cb_size cb = 0" by (simp add: cb_inv_def)
  then show ?thesis by (simp add: cb_peek_def cb_contents_def Let_def)
next
  case False
  with assms have h: "cb_head cb < cb_capacity cb" by (simp add: cb_inv_def)
  have "take (min n (cb_size cb)) (cb_contents cb)
      = map (\<lambda>i. cb_buffer cb ! ((cb_head cb + i) mod cb_capacity cb)) [0..<min n (cb_size cb)]"
    by (simp add: cb_contents_def take_map min_def)
  with peek_loop_correct [OF h, of "min n (cb_size cb)" "[]"] show ?thesis
    by (simp add: cb_peek_def Let_def)
qed

lemma cb_write_correct:
  assumes "cb_inv cb"
  shows "fst (cb_write cb data) = min (length data) (cb_capacity cb - cb_size cb)"
    and "cb_inv (snd (cb_write cb data))"
    and "cb_contents (snd (cb_write cb data))
         = cb_contents cb @ take (min (length data) (cb_capacity cb - cb_size cb)) data"
    and "cb_size (snd (cb_write cb data))
         = cb_size cb + min (length data) (cb_capacity cb - cb_size cb)"
    and "cb_capacity (snd (cb_write cb data)) = cb_capacity cb"
proof -
  let ?k = "min (length data) (cb_capacity cb - cb_size cb)"
  from assms have "cb_size cb \<le> cb_capacity cb" by (simp add: cb_inv_def)
  then have "cb_size cb + length (take ?k data) \<le> cb_capacity cb" by simp
  note w = write_loop_correct [OF assms this]
  show "fst (cb_write cb data) = ?k" by (simp add: cb_write_def Let_def)
  from w show "cb_inv (snd (cb_write cb data))" by (simp add: cb_write_def Let_def)
  from w show "cb_contents (snd (cb_write cb data)) = cb_contents cb @ take ?k data"
    by (simp add: cb_write_def Let_def)
  from w show "cb_size (snd (cb_write cb data)) = cb_size cb + ?k"
    by (simp add: cb_write_def Let_def)
  from w show "cb_capacity (snd (cb_write cb data)) = cb_capacity cb"
    by (simp add: cb_write_def Let_def)
qed

lemma cb_read_correct:
  assumes "cb_inv cb"
  shows "fst (cb_read cb n) = min n (cb_size cb)"
    and "fst (snd (cb_read cb n)) = take (min n (cb_size cb)) (cb_contents cb)"
    and "cb_inv (snd (snd (cb_read cb n)))"
    and "cb_contents (snd (snd (cb_read cb n))) = drop (min n (cb_size cb)) (cb_contents cb)"
    and "cb_size (snd (snd (cb_read cb n))) = cb_size cb - min n (cb_size cb)"
    and "cb_capacity (snd (snd (cb_read cb n))) = cb_capacity cb"
proof -
  let ?k = "min n (cb_size cb)"
  have "?k \<le> cb_size cb" by simp
  note r = read_loop_correct [OF assms this, of "[]"]
  show "fst (cb_read cb n) = ?k" by (simp add: cb_read_def Let_def)
  from r show "fst (snd (cb_read cb n)) = take ?k (cb_contents cb)" by (simp add: cb_read_def Let_def)
  from r show "cb_inv (snd (snd (cb_read cb n)))" by (simp add: cb_read_def Let_def)
  from r show "cb_contents (snd (snd (cb_read cb n))) = drop ?k (cb_contents cb)"
    by (simp add: cb_read_def Let_def)
  from r show "cb_size (snd (snd (cb_read cb n))) = cb_size cb - ?k" by (simp add: cb_read_def Let_def)
  from r show "cb_capacity (snd (snd (cb_read cb n))) = cb_capacity cb" by (simp add: cb_read_def Let_def)
qed

lemma cb_skip_correct:
  assumes inv: "cb_inv cb" and s: "cb_skip cb n = Some cb'"
  shows "cb_inv cb'"
    and "cb_contents cb' = drop (min n (cb_size cb)) (cb_contents cb)"
    and "cb_size cb' = cb_size cb - min n (cb_size cb)"
    and "cb_capacity cb' = cb_capacity cb"
proof -
  let ?c = "cb_capacity cb" and ?h = "cb_head cb" and ?k = "min n (cb_size cb)"
  from s have c: "0 < ?c"
    and cb': "cb' = cb\<lparr>cb_head := (?h + ?k) mod ?c, cb_size := cb_size cb - ?k\<rparr>"
    by (auto simp: cb_skip_def Let_def split: if_splits)
  have "((?h + ?k) mod ?c + (cb_size cb - ?k)) mod ?c = (?h + ?k + (cb_size cb - ?k)) mod ?c"
    by (rule mod_add_left_eq)
  also have "?h + ?k + (cb_size cb - ?k) = ?h + cb_size cb" by simp
  finally have t: "((?h + ?k) mod ?c + (cb_size cb - ?k)) mod ?c = (?h + cb_size cb) mod ?c" .
  have e: "(?h + ?k) mod ?c + cb_size cb - ?k = (?h + ?k) mod ?c + (cb_size cb - ?k)"
    by simp
  from t have t2: "((?h + ?k) mod ?c + cb_size cb - ?k) mod ?c = (?h + cb_size cb) mod ?c"
    by (simp only: e)
  from inv c t t2 show "cb_inv cb'" by (auto simp: cb_inv_def cb')
  show "cb_size cb' = cb_size cb - ?k" by (simp add: cb')
  show "cb_capacity cb' = ?c" by (simp add: cb')
  have idx: "((?h + ?k) mod ?c + i) mod ?c = (?h + (?k + i)) mod ?c" for i
    by (simp add: mod_add_left_eq add.assoc)
  have "map (\<lambda>i. i + ?k) [0..<cb_size cb - ?k] = [?k..<cb_size cb - ?k + ?k]"
    by (rule map_add_upt)
  then have u: "[?k..<cb_size cb] = map (\<lambda>i. ?k + i) [0..<cb_size cb - ?k]"
    by (simp add: add.commute)
  have "drop ?k (cb_contents cb)
      = map (\<lambda>i. cb_buffer cb ! ((?h + i) mod ?c)) [?k..<cb_size cb]"
    by (simp add: cb_contents_def drop_map drop_upt)
  also have "\<dots> = map (\<lambda>i. cb_buffer cb ! ((?h + i) mod ?c))
      (map (\<lambda>i. ?k + i) [0..<cb_size cb - ?k])"
    by (simp only: u)
  finally have "drop ?k (cb_contents cb)
      = map (\<lambda>i. cb_buffer cb ! ((?h + i) mod ?c)) (map (\<lambda>i. ?k + i) [0..<cb_size cb - ?k])" .
  then show "cb_contents cb' = drop ?k (cb_contents cb)"
    by (simp add: cb_contents_def cb' idx comp_def)
qed


lemma cb_clear_correct: "cb_inv cb \<Longrightarrow> cb_inv (cb_clear cb) \<and> cb_contents (cb_clear cb) = []"
  by (auto simp: cb_inv_def cb_clear_def cb_contents_def)

text \<open>
  C9 (the ring).  The claim is that every operation, on every buffer, leaves the size
  between 0 and the capacity.  \<open>CircularBuffer(0)\<close> constructs a well-formed buffer of
  capacity 0, and on it \<open>skip(n)\<close>, for every \<open>n\<close>, evaluates
  \<open>(head_ + skipLength) % capacity_\<close> with \<open>capacity_\<close> 0: an integer division by zero,
  after which no size is left to observe.  Everywhere else the claim holds: on a
  well-formed buffer (\<open>size_ <= capacity_\<close>, the indices in range, as the constructor
  builds it and as every operation leaves it), \<open>write\<close> appends the first
  \<open>min(n, capacity - size)\<close> bytes of its input to the content and returns that count;
  \<open>read\<close> returns the count \<open>min(n, size)\<close> and as many of the oldest bytes, which it
  removes; \<open>peek\<close> returns the same count and bytes and removes nothing; \<open>skip\<close> removes
  the \<open>min(n, size)\<close> oldest bytes, and returns whenever the capacity is not 0; \<open>clear\<close>
  empties the buffer.  The size is the length of the content and stays at most the
  capacity.
\<close>

theorem circular_buffer_operations:
  "cb_inv (newCircularBuffer c)
   \<and> cb_skip (newCircularBuffer 0) n = None
   \<and> (cb_inv cb \<longrightarrow>
        cb_size cb \<le> cb_capacity cb \<and> length (cb_contents cb) = cb_size cb
        \<and> fst (cb_write cb data) = min (length data) (cb_capacity cb - cb_size cb)
        \<and> cb_contents (snd (cb_write cb data))
            = cb_contents cb @ take (min (length data) (cb_capacity cb - cb_size cb)) data
        \<and> cb_inv (snd (cb_write cb data))
        \<and> fst (cb_read cb n) = min n (cb_size cb)
        \<and> fst (snd (cb_read cb n)) = take (min n (cb_size cb)) (cb_contents cb)
        \<and> cb_contents (snd (snd (cb_read cb n))) = drop (min n (cb_size cb)) (cb_contents cb)
        \<and> cb_inv (snd (snd (cb_read cb n)))
        \<and> cb_peek cb n = (min n (cb_size cb), take (min n (cb_size cb)) (cb_contents cb))
        \<and> (\<forall>cb'. cb_skip cb n = Some cb' \<longrightarrow>
              cb_contents cb' = drop (min n (cb_size cb)) (cb_contents cb) \<and> cb_inv cb')
        \<and> (0 < cb_capacity cb \<longrightarrow> cb_skip cb n \<noteq> None)
        \<and> cb_contents (cb_clear cb) = [] \<and> cb_inv (cb_clear cb))"
proof (intro conjI impI allI)
  show "cb_inv (newCircularBuffer c)" by (rule newCircularBuffer_inv)
next
  show "cb_skip (newCircularBuffer 0) n = None"
    by (simp add: cb_skip_def newCircularBuffer_def)
next
  assume "cb_inv cb"
  then show "cb_size cb \<le> cb_capacity cb" by (simp add: cb_inv_def)
next
  show "length (cb_contents cb) = cb_size cb" by simp
next
  assume "cb_inv cb"
  then show "fst (cb_write cb data) = min (length data) (cb_capacity cb - cb_size cb)"
    by (rule cb_write_correct)
next
  assume "cb_inv cb"
  then show "cb_contents (snd (cb_write cb data))
      = cb_contents cb @ take (min (length data) (cb_capacity cb - cb_size cb)) data"
    by (rule cb_write_correct)
next
  assume "cb_inv cb"
  then show "cb_inv (snd (cb_write cb data))" by (rule cb_write_correct)
next
  assume "cb_inv cb"
  then show "fst (cb_read cb n) = min n (cb_size cb)" by (rule cb_read_correct)
next
  assume "cb_inv cb"
  then show "fst (snd (cb_read cb n)) = take (min n (cb_size cb)) (cb_contents cb)"
    by (rule cb_read_correct)
next
  assume "cb_inv cb"
  then show "cb_contents (snd (snd (cb_read cb n))) = drop (min n (cb_size cb)) (cb_contents cb)"
    by (rule cb_read_correct)
next
  assume "cb_inv cb"
  then show "cb_inv (snd (snd (cb_read cb n)))" by (rule cb_read_correct)
next
  assume "cb_inv cb"
  then show "cb_peek cb n = (min n (cb_size cb), take (min n (cb_size cb)) (cb_contents cb))"
    by (rule cb_peek_correct)
next
  fix cb'
  assume "cb_inv cb" and "cb_skip cb n = Some cb'"
  then show "cb_contents cb' = drop (min n (cb_size cb)) (cb_contents cb)"
    by (rule cb_skip_correct)
next
  fix cb'
  assume "cb_inv cb" and "cb_skip cb n = Some cb'"
  then show "cb_inv cb'" by (rule cb_skip_correct)
next
  assume "0 < cb_capacity cb"
  then show "cb_skip cb n \<noteq> None" by (simp add: cb_skip_def Let_def)
next
  assume "cb_inv cb"
  then show "cb_contents (cb_clear cb) = []" by (simp add: cb_clear_correct)
next
  assume "cb_inv cb"
  then show "cb_inv (cb_clear cb)" by (simp add: cb_clear_correct)
qed

text \<open>
  The theorem at a buffer of capacity 4 that holds 4, 7, 8 across the end of the array.
\<close>

theorem circular_buffer_operations_witness:
  "fst (cb_write \<lparr>cb_buffer = [7, 8, 3, 4], cb_capacity = 4, cb_size = 3, cb_head = 3, cb_tail = 2\<rparr>
         [9, 10]) = 1
   \<and> cb_contents (snd (cb_write
         \<lparr>cb_buffer = [7, 8, 3, 4], cb_capacity = 4, cb_size = 3, cb_head = 3, cb_tail = 2\<rparr>
         [9, 10])) = [4, 7, 8, 9]
   \<and> fst (cb_read \<lparr>cb_buffer = [7, 8, 3, 4], cb_capacity = 4, cb_size = 3, cb_head = 3, cb_tail = 2\<rparr>
         2) = 2
   \<and> fst (snd (cb_read
         \<lparr>cb_buffer = [7, 8, 3, 4], cb_capacity = 4, cb_size = 3, cb_head = 3, cb_tail = 2\<rparr> 2))
       = [4, 7]
   \<and> cb_peek \<lparr>cb_buffer = [7, 8, 3, 4], cb_capacity = 4, cb_size = 3, cb_head = 3, cb_tail = 2\<rparr> 5
       = (3, [4, 7, 8])
   \<and> cb_skip \<lparr>cb_buffer = [7, 8, 3, 4], cb_capacity = 4, cb_size = 3, cb_head = 3, cb_tail = 2\<rparr> 1
       \<noteq> None"
proof -
  let ?cb = "\<lparr>cb_buffer = [7, 8, 3, 4], cb_capacity = 4, cb_size = 3, cb_head = 3, cb_tail = 2\<rparr>"
  have inv: "cb_inv ?cb" by (simp add: cb_inv_def)
  have c: "cb_contents ?cb = [4, 7, 8]" by code_simp
  have pos: "0 < cb_capacity ?cb" by simp
  from circular_buffer_operations [where cb = ?cb and data = "[9, 10]" and n = 2] inv c
  have w: "fst (cb_write ?cb [9, 10]) = 1"
    "cb_contents (snd (cb_write ?cb [9, 10])) = [4, 7, 8, 9]"
    "fst (cb_read ?cb 2) = 2" "fst (snd (cb_read ?cb 2)) = [4, 7]"
    by simp_all
  from circular_buffer_operations [where cb = ?cb and data = "[]" and n = 5] inv c
  have p: "cb_peek ?cb 5 = (3, [4, 7, 8])" by simp
  from circular_buffer_operations [where cb = ?cb and data = "[]" and n = 1] inv pos
  have s: "cb_skip ?cb 1 \<noteq> None" by blast
  from w p s show ?thesis by simp
qed

section \<open>Properties of the lifecycle functions\<close>

text \<open>
  C3 (closing twice).  The claim is that a second \<open>close()\<close>, \<open>disconnect()\<close> or \<open>stop()\<close>
  invokes no callback again.  \<open>TcpClient::disconnect\<close> invokes the disconnected callback
  on every call: two calls in a row on a client with the callback set invoke it twice.
\<close>

theorem cl_disconnect_twice_calls_back_twice:
  "cl_calls (cl_disconnect (cl_disconnect (c\<lparr>cl_onDisconnected := True\<rparr>)))
     = cl_calls c @ [CalledDisconnected, CalledDisconnected]"
  by (simp add: cl_disconnect_def sock_close_def isValid_def Let_def)

text \<open>
  \<open>TcpConnection::close\<close> and \<open>TcpServer::stop\<close> do test the state first: a second call
  changes nothing, and a connection invokes its callback at most once.
\<close>

lemma conn_close_Disconnected: "conn_state (conn_close left c) = Disconnected"
  by (auto simp: conn_close_def Let_def split: option.splits)

lemma conn_close_not_joinable: "\<not> conn_receiveThread (conn_close left c)"
  by (auto simp: conn_close_def Let_def split: option.splits)

lemma conn_close_of_closed:
  "conn_state c = Disconnected \<Longrightarrow> \<not> conn_receiveThread c \<Longrightarrow> conn_close left c = c"
  by (simp add: conn_close_def Let_def)

lemma conn_close_idempotent: "conn_close left' (conn_close left c) = conn_close left c"
  by (rule conn_close_of_closed) (rule conn_close_Disconnected conn_close_not_joinable)+

lemma conn_close_calls:
  "conn_calls (conn_close left c) = conn_calls c
   \<or> conn_calls (conn_close left c) = conn_calls c @ [CalledDisconnected]"
  by (auto simp: conn_close_def Let_def split: option.splits)

lemma srv_stop_idempotent: "srv_stop s = Some s' \<Longrightarrow> srv_stop s' = Some s'"
  by (auto simp: srv_stop_def sock_close_def split: if_splits option.splits)

text \<open>
  C4 (the reconnect loop).  The claim is that the loop passes its wait when auto-reconnect
  is enabled and the client is not connected.  The predicate of the wait is
  \<open>!autoReconnect_ || shouldStop_\<close>: with auto-reconnect enabled and the client running
  the loop stays in the wait, connected or not; with auto-reconnect disabled it passes
  the wait and skips the attempt; no iteration reaches the attempt.
\<close>

theorem reconnectLoop_waits_while_enabled:
  "reconnectLoop_iteration (c\<lparr>cl_autoReconnect := True, cl_shouldStop := False\<rparr>) = LoopWaits
   \<and> reconnectLoop_iteration (c\<lparr>cl_autoReconnect := False, cl_shouldStop := False\<rparr>) = LoopSkips
   \<and> reconnectLoop_iteration c \<noteq> LoopAttempts"
  by (simp add: reconnectLoop_iteration_def reconnect_wait_predicate_def)

text \<open>The same at a client just constructed.\<close>

theorem reconnectLoop_waits_while_enabled_witness:
  "reconnectLoop_iteration (newTcpClient\<lparr>cl_autoReconnect := True, cl_shouldStop := False\<rparr>)
     = LoopWaits
   \<and> reconnectLoop_iteration (newTcpClient\<lparr>cl_autoReconnect := False, cl_shouldStop := False\<rparr>)
     = LoopSkips
   \<and> reconnectLoop_iteration newTcpClient \<noteq> LoopAttempts"
  by (rule reconnectLoop_waits_while_enabled [of newTcpClient])


lemma sock_create_result:
  "sock_create os s = Some (created, s') \<Longrightarrow>
   \<not> isValid s \<and> created = (os \<noteq> None) \<and> socket_h s' = os"
  by (auto simp: sock_create_def split: if_splits)

lemma sock_create_returns: "\<not> isValid s \<Longrightarrow> sock_create os s \<noteq> None"
  by (cases os) (simp_all add: sock_create_def)

lemma cl_handleError_socket [simp]: "socket_h (cl_handleError e c) = socket_h c"
  by (simp add: cl_handleError_def)

lemma setNonBlocking_socket [simp]: "socket_h (setNonBlocking nb s) = socket_h s"
  by (simp add: setNonBlocking_def)

lemma cl_disconnect_invalid [simp]: "\<not> isValid (cl_disconnect c)"
  by (simp add: cl_disconnect_def Let_def sock_close_def isValid_def)

lemma srv_bind_false:
  assumes "srv_bind env address port s = Some (False, s')" and "\<not> srv_running s"
  shows "isValid s' \<longleftrightarrow> be_socket env \<noteq> None"
proof -
  from assms obtain created s1 where c: "sock_create (be_socket env) s = Some (created, s1)"
    and s': "socket_h s' = socket_h s1"
    by (auto simp: srv_bind_def split: option.splits if_splits)
  from sock_create_result [OF c] s' show ?thesis by (simp add: isValid_def)
qed

lemma connect_outcome_codes:
  "connect_outcome env = Some e \<Longrightarrow> e = ConnectionFailed \<or> e = Timeout"
  by (auto simp: connect_outcome_def wait_connected_def
      split: connect_result.splits select_result.splits if_splits)

lemma cl_connected_false:
  assumes "cl_connected a p c = Some (False, c')"
  shows "socket_h c' = socket_h c \<and> cl_state c' = Error
     \<and> cl_calls c' = cl_calls c @ (if cl_onError c then [CalledError SslError] else [])"
  using assms
  by (auto simp: cl_connected_def cl_handleError_def setNonBlocking_def Let_def
      split: if_splits)

lemma cl_connect_created_false:
  assumes f: "cl_connect_created env address port c = Some (False, c')"
  shows "socket_h c' = socket_h c \<and> cl_state c' = Error
     \<and> (\<exists>e. e \<in> {InvalidAddress, ConnectionFailed, Timeout, SslError}
           \<and> cl_calls c' = cl_calls c @ (if cl_onError c then [CalledError e] else []))"
proof (cases "ce_inet_pton env (case ce_resolve env address of None \<Rightarrow> address | Some ip \<Rightarrow> ip)")
  case False
  with f have "c' = (cl_handleError InvalidAddress c)\<lparr>cl_state := Error\<rparr>"
    by (simp add: cl_connect_created_def Let_def)
  then have "socket_h c' = socket_h c \<and> cl_state c' = Error
     \<and> cl_calls c' = cl_calls c @ (if cl_onError c then [CalledError InvalidAddress] else [])"
    by (simp add: cl_handleError_def)
  then show ?thesis by blast
next
  case True
  show ?thesis
  proof (cases "connect_outcome env")
    case (Some e)
    with True f have "c' = (cl_handleError e (setNonBlocking True c))\<lparr>cl_state := Error\<rparr>"
      by (simp add: cl_connect_created_def Let_def)
    then have "socket_h c' = socket_h c \<and> cl_state c' = Error
       \<and> cl_calls c' = cl_calls c @ (if cl_onError c then [CalledError e] else [])"
      by (simp add: cl_handleError_def setNonBlocking_def)
    moreover from connect_outcome_codes [OF Some]
    have "e \<in> {InvalidAddress, ConnectionFailed, Timeout, SslError}" by auto
    ultimately show ?thesis by blast
  next
    case None
    with True f obtain a where "cl_connected a port (setNonBlocking True c) = Some (False, c')"
      by (simp add: cl_connect_created_def Let_def)
    from cl_connected_false [OF this]
    have "socket_h c' = socket_h c \<and> cl_state c' = Error
       \<and> cl_calls c' = cl_calls c @ (if cl_onError c then [CalledError SslError] else [])"
      by (simp add: setNonBlocking_def)
    then show ?thesis by blast
  qed
qed

lemma cl_disconnect_onError [simp]: "cl_onError (cl_disconnect c) = cl_onError c"
  by (simp add: cl_disconnect_def Let_def sock_close_def)

lemma cl_disconnect_receiveThread [simp]: "\<not> cl_receiveThread (cl_disconnect c)"
  by (simp add: cl_disconnect_def Let_def sock_close_def)

lemma cl_connectInternal_false:
  assumes f: "cl_connectInternal env address port c = Some (False, c')"
  shows "(isValid c' \<longleftrightarrow> ce_socket env \<noteq> None) \<and> cl_state c' = Error
     \<and> (\<exists>e. e \<in> {InvalidAddress, ConnectionFailed, Timeout, SslError}
           \<and> cl_calls c' =
               cl_calls (if cl_isConnected c then cl_disconnect c else c)
               @ (if ce_socket env \<noteq> None \<and> cl_onError c then [CalledError e] else []))"
proof -
  let ?b = "if cl_isConnected c then cl_disconnect c else c"
  let ?c0 = "?b\<lparr>cl_state := Connecting\<rparr>"
  from f obtain created c1 where c: "sock_create (ce_socket env) ?c0 = Some (created, c1)"
    by (cases "sock_create (ce_socket env) ?c0") (auto simp: cl_connectInternal_def)
  from sock_create_result [OF c]
  have cr: "created = (ce_socket env \<noteq> None)" and h: "socket_h c1 = ce_socket env" by simp_all
  from c have c1: "c1 = ?c0\<lparr>socket_h := ce_socket env\<rparr>"
    by (auto simp: sock_create_def split: if_splits)
  have calls: "cl_calls c1 = cl_calls ?b" and onE: "cl_onError c1 = cl_onError c"
    by (simp_all add: c1)
  show ?thesis
  proof (cases created)
    case False
    with f c have "c' = c1\<lparr>cl_state := Error\<rparr>" by (simp add: cl_connectInternal_def)
    with False cr h calls have "(isValid c' \<longleftrightarrow> ce_socket env \<noteq> None) \<and> cl_state c' = Error
       \<and> InvalidAddress \<in> {InvalidAddress, ConnectionFailed, Timeout, SslError}
       \<and> cl_calls c' = cl_calls ?b
               @ (if ce_socket env \<noteq> None \<and> cl_onError c then [CalledError InvalidAddress] else [])"
      by (simp add: isValid_def)
    then show ?thesis by blast
  next
    case True
    with f c have "cl_connect_created env address port c1 = Some (False, c')"
      by (simp add: cl_connectInternal_def)
    from cl_connect_created_false [OF this] obtain e
      where s: "socket_h c' = socket_h c1" and st: "cl_state c' = Error"
        and e: "e \<in> {InvalidAddress, ConnectionFailed, Timeout, SslError}"
        and cs: "cl_calls c' = cl_calls c1 @ (if cl_onError c1 then [CalledError e] else [])"
      by blast
    from True cr have so: "ce_socket env \<noteq> None" by simp
    from s h so have "isValid c' \<longleftrightarrow> ce_socket env \<noteq> None" by (simp add: isValid_def)
    moreover from cs so have "cl_calls c' = cl_calls ?b
               @ (if ce_socket env \<noteq> None \<and> cl_onError c then [CalledError e] else [])"
      by (simp only: calls onE) simp
    ultimately show ?thesis using st e by blast
  qed
qed

lemma cl_connected_returns:
  "\<not> cl_receiveThread c \<Longrightarrow> cl_connected a p c \<noteq> None"
  by (auto simp add: cl_connected_def Let_def setNonBlocking_def)

lemma cl_connect_created_returns:
  "\<not> cl_receiveThread c \<Longrightarrow> cl_connect_created env address port c \<noteq> None"
proof -
  assume r: "\<not> cl_receiveThread c"
  then have "\<not> cl_receiveThread (setNonBlocking True c)" by (simp add: setNonBlocking_def)
  then have "cl_connected a port (setNonBlocking True c) \<noteq> None" for a
    by (rule cl_connected_returns)
  then show ?thesis
    by (cases "connect_outcome env") (auto simp add: cl_connect_created_def Let_def)
qed

lemma cl_connectInternal_returns:
  assumes "cl_isConnected c \<or> \<not> isValid c \<and> \<not> cl_receiveThread c"
  shows "cl_connectInternal env address port c \<noteq> None"
proof -
  let ?b = "if cl_isConnected c then cl_disconnect c else c"
  let ?c0 = "?b\<lparr>cl_state := Connecting\<rparr>"
  from assms have "\<not> isValid ?b" and t: "\<not> cl_receiveThread ?b"
    by auto
  then have "\<not> isValid ?c0" by (simp add: isValid_def)
  then have "sock_create (ce_socket env) ?c0 \<noteq> None" by (rule sock_create_returns)
  then obtain created c1 where c: "sock_create (ce_socket env) ?c0 = Some (created, c1)"
    by (cases "sock_create (ce_socket env) ?c0") auto
  then have "c1 = ?c0\<lparr>socket_h := ce_socket env\<rparr>"
    by (auto simp: sock_create_def split: if_splits)
  with t have "\<not> cl_receiveThread c1" by simp
  then have "cl_connect_created env address port c1 \<noteq> None"
    by (rule cl_connect_created_returns)
  with c show ?thesis by (cases created) (simp_all add: cl_connectInternal_def)
qed

lemma cl_connected_joinable:
  "cl_receiveThread c \<Longrightarrow> cl_connected a p c \<noteq> Some (True, c')"
  by (auto simp add: cl_connected_def Let_def setNonBlocking_def)

lemma cl_connect_created_joinable:
  assumes "cl_receiveThread c"
  shows "cl_connect_created env address port c \<noteq> Some (True, c')"
proof -
  from assms have "cl_receiveThread (setNonBlocking True c)" by (simp add: setNonBlocking_def)
  then have "cl_connected a port (setNonBlocking True c) \<noteq> Some (True, c')" for a
    by (rule cl_connected_joinable)
  then show ?thesis
    by (cases "connect_outcome env") (auto simp add: cl_connect_created_def Let_def)
qed

lemma cl_connectInternal_joinable:
  assumes "\<not> cl_isConnected c \<and> cl_receiveThread c"
  shows "cl_connectInternal env address port c \<noteq> Some (True, c')"
proof (cases "sock_create (ce_socket env) (c\<lparr>cl_state := Connecting\<rparr>)")
  case None
  with assms show ?thesis by (simp add: cl_connectInternal_def)
next
  case (Some r)
  obtain created c1 where r: "r = (created, c1)" by (cases r)
  from Some r have "c1 = c\<lparr>cl_state := Connecting, socket_h := ce_socket env\<rparr>"
    by (auto simp: sock_create_def split: if_splits)
  with assms have "cl_receiveThread c1" by simp
  then have "cl_connect_created env address port c1 \<noteq> Some (True, c')"
    by (rule cl_connect_created_joinable)
  with assms Some r show ?thesis by (cases created) (simp_all add: cl_connectInternal_def)
qed

text \<open>
  Where \<open>connect\<close> does not return: the handle is still valid on a client that is not
  connected (\<open>create()\<close> locks \<open>mutex_\<close> twice), or the connection is made while
  \<open>receiveThread_\<close> is still joinable (\<open>std::terminate\<close>).
\<close>

lemma cl_connectInternal_no_return:
  "cl_connectInternal
     \<lparr>ce_socket = Some 4, ce_resolve = (\<lambda>a. None), ce_inet_pton = (\<lambda>a. True),
      ce_connect = ConnectDone, ce_select = SelectTimeout, ce_so_error = False\<rparr>
     ''10.0.0.1'' 80 (newTcpClient\<lparr>cl_receiveThread := True\<rparr>) = None
   \<and> cl_connectInternal
     \<lparr>ce_socket = Some 4, ce_resolve = (\<lambda>a. None), ce_inet_pton = (\<lambda>a. True),
      ce_connect = ConnectDone, ce_select = SelectTimeout, ce_so_error = False\<rparr>
     ''10.0.0.1'' 80 (newTcpClient\<lparr>socket_h := Some 3, cl_state := Error\<rparr>) = None"
  by (simp add: cl_connectInternal_def cl_connect_created_def cl_connected_def
      connect_outcome_def setNonBlocking_def sock_create_def isValid_def cl_isConnected_def
      cl_setupSsl_def newTcpClient_def)

text \<open>
  C5 (failed bind, listen and connect), as amended.  Nothing is torn down on a failure.
  After a \<open>bind\<close> or a \<open>connect\<close> that returned false the handle is valid exactly when
  \<open>socket()\<close> succeeded: a socket created before a later step failed stays open.  \<open>bind\<close>
  on a running server and \<open>listen\<close> leave the server as it was.  A \<open>connect\<close> that
  returned false leaves the client in the state \<open>Error\<close>; the error callback is invoked
  once, with one of the four codes, when it is set and the failure came after the socket
  was created, and no callback is invoked for the failure when \<open>socket()\<close> itself failed
  or no error callback is set (before that, a client that was connected is disconnected,
  with the callbacks of \<open>disconnect\<close>).  \<open>bind\<close> returns whenever the handle is invalid
  on entry; \<open>connect\<close> returns on a connected client, and on a client whose handle is
  invalid and whose receive thread is not joinable.  On a valid handle neither returns
  (on a server that is not running, on a client that is not connected): \<open>create()\<close>
  locks \<open>mutex_\<close> twice.  A \<open>connect\<close> on a client that is not connected and whose
  receive thread is still joinable does not return true.
\<close>

theorem failed_attempt_keeps_created_socket:
  "(srv_bind env address port s = Some (False, s') \<and> \<not> srv_running s \<longrightarrow>
      (isValid s' \<longleftrightarrow> be_socket env \<noteq> None))
   \<and> (srv_running s \<longrightarrow> srv_bind env address port s = Some (False, s))
   \<and> snd (srv_listen os_listen s) = s
   \<and> (cl_connectInternal cenv address port c = Some (False, c') \<longrightarrow>
        (isValid c' \<longleftrightarrow> ce_socket cenv \<noteq> None)
        \<and> cl_state c' = Error
        \<and> (\<exists>e. e \<in> {InvalidAddress, ConnectionFailed, Timeout, SslError}
              \<and> cl_calls c' =
                  cl_calls (if cl_isConnected c then cl_disconnect c else c)
                  @ (if ce_socket cenv \<noteq> None \<and> cl_onError c then [CalledError e] else [])))
   \<and> (\<not> isValid s \<longrightarrow> srv_bind env address port s \<noteq> None)
   \<and> (cl_isConnected c \<or> \<not> isValid c \<and> \<not> cl_receiveThread c \<longrightarrow>
        cl_connectInternal cenv address port c \<noteq> None)
   \<and> (\<not> srv_running s \<and> isValid s \<longrightarrow> srv_bind env address port s = None)
   \<and> (\<not> cl_isConnected c \<and> isValid c \<longrightarrow> cl_connectInternal cenv address port c = None)
   \<and> (\<not> cl_isConnected c \<and> cl_receiveThread c \<longrightarrow>
        cl_connectInternal cenv address port c \<noteq> Some (True, c'))"
proof (intro conjI impI)
  assume "srv_bind env address port s = Some (False, s') \<and> \<not> srv_running s"
  then have "srv_bind env address port s = Some (False, s')" and "\<not> srv_running s"
    by simp_all
  then show "isValid s' \<longleftrightarrow> be_socket env \<noteq> None"
    by (rule srv_bind_false)
next
  assume "srv_running s"
  then show "srv_bind env address port s = Some (False, s)" by (simp add: srv_bind_def)
next
  show "snd (srv_listen os_listen s) = s" by (simp add: srv_listen_def)
next
  assume "cl_connectInternal cenv address port c = Some (False, c')"
  from cl_connectInternal_false [OF this]
  show "isValid c' \<longleftrightarrow> ce_socket cenv \<noteq> None" by blast
next
  assume "cl_connectInternal cenv address port c = Some (False, c')"
  from cl_connectInternal_false [OF this]
  show "cl_state c' = Error" by blast
next
  assume "cl_connectInternal cenv address port c = Some (False, c')"
  from cl_connectInternal_false [OF this]
  show "\<exists>e. e \<in> {InvalidAddress, ConnectionFailed, Timeout, SslError}
          \<and> cl_calls c' =
              cl_calls (if cl_isConnected c then cl_disconnect c else c)
              @ (if ce_socket cenv \<noteq> None \<and> cl_onError c then [CalledError e] else [])"
    by blast
next
  assume "\<not> isValid s"
  then have "sock_create (be_socket env) s \<noteq> None" by (rule sock_create_returns)
  then show "srv_bind env address port s \<noteq> None"
    by (auto simp: srv_bind_def split: option.splits prod.splits)
next
  assume "cl_isConnected c \<or> \<not> isValid c \<and> \<not> cl_receiveThread c"
  then show "cl_connectInternal cenv address port c \<noteq> None"
    by (rule cl_connectInternal_returns)
next
  assume "\<not> srv_running s \<and> isValid s"
  then show "srv_bind env address port s = None"
    by (simp add: srv_bind_def sock_create_def)
next
  assume "\<not> cl_isConnected c \<and> isValid c"
  then show "cl_connectInternal cenv address port c = None"
    by (simp add: cl_connectInternal_def sock_create_def isValid_def)
next
  assume "\<not> cl_isConnected c \<and> cl_receiveThread c"
  then show "cl_connectInternal cenv address port c \<noteq> Some (True, c')"
    by (rule cl_connectInternal_joinable)
qed


text \<open>
  The theorem at a fresh server whose \<open>::bind\<close> fails, at a running server, and at a fresh
  client with an error callback whose connection is refused: the socket stays open, the
  state is \<open>Error\<close> and the callback was invoked once.
\<close>

theorem failed_attempt_keeps_created_socket_witness:
  "isValid (newTcpServer\<lparr>socket_h := Some 3, srv_localAddress := ''10.0.0.1''\<rparr>)
   \<and> srv_bind \<lparr>be_socket = Some 3, be_inet_pton = (\<lambda>a. True), be_bind = False\<rparr>
         ''10.0.0.1'' 80 (newTcpServer\<lparr>srv_running := True\<rparr>)
       = Some (False, newTcpServer\<lparr>srv_running := True\<rparr>)
   \<and> isValid (newTcpClient\<lparr>socket_h := Some 4, nonBlocking := True, cl_state := Error,
                cl_onError := True, cl_calls := [CalledError ConnectionFailed]\<rparr>)
   \<and> cl_state (newTcpClient\<lparr>socket_h := Some 4, nonBlocking := True, cl_state := Error,
                cl_onError := True, cl_calls := [CalledError ConnectionFailed]\<rparr>) = Error
   \<and> srv_bind \<lparr>be_socket = Some 3, be_inet_pton = (\<lambda>a. True), be_bind = False\<rparr>
         ''10.0.0.1'' 80 newTcpServer \<noteq> None
   \<and> cl_connectInternal
         \<lparr>ce_socket = Some 4, ce_resolve = (\<lambda>a. None), ce_inet_pton = (\<lambda>a. True),
          ce_connect = ConnectRefused, ce_select = SelectTimeout, ce_so_error = False\<rparr>
         ''10.0.0.1'' 80 (newTcpClient\<lparr>cl_onError := True\<rparr>) \<noteq> None"
proof -
  let ?env = "\<lparr>be_socket = Some 3, be_inet_pton = (\<lambda>a. True), be_bind = False\<rparr>"
  let ?cenv = "\<lparr>ce_socket = Some 4, ce_resolve = (\<lambda>a. None), ce_inet_pton = (\<lambda>a. True),
          ce_connect = ConnectRefused, ce_select = SelectTimeout, ce_so_error = False\<rparr>"
  let ?s' = "newTcpServer\<lparr>socket_h := Some 3, srv_localAddress := ''10.0.0.1''\<rparr>"
  let ?c = "newTcpClient\<lparr>cl_onError := True\<rparr>"
  let ?c' = "newTcpClient\<lparr>socket_h := Some 4, nonBlocking := True, cl_state := Error,
                cl_onError := True, cl_calls := [CalledError ConnectionFailed]\<rparr>"
  have b: "srv_bind ?env ''10.0.0.1'' 80 newTcpServer = Some (False, ?s')
      \<and> \<not> srv_running newTcpServer"
    by (simp add: srv_bind_def sock_create_def isValid_def newTcpServer_def)
  have r: "srv_running (newTcpServer\<lparr>srv_running := True\<rparr>)" by simp
  have c: "cl_connectInternal ?cenv ''10.0.0.1'' 80 ?c = Some (False, ?c')"
    by (simp add: cl_connectInternal_def cl_connect_created_def connect_outcome_def
        cl_handleError_def setNonBlocking_def sock_create_def isValid_def cl_isConnected_def
        newTcpClient_def)
  have v: "\<not> isValid newTcpServer"
    "cl_isConnected ?c \<or> \<not> isValid ?c \<and> \<not> cl_receiveThread ?c"
    by (simp_all add: isValid_def newTcpServer_def newTcpClient_def)
  have se: "be_socket ?env \<noteq> None" "ce_socket ?cenv \<noteq> None" by simp_all
  note t1 = failed_attempt_keeps_created_socket
    [of ?env "''10.0.0.1''" 80 newTcpServer ?s' True ?cenv ?c ?c']
  note t2 = failed_attempt_keeps_created_socket
    [of ?env "''10.0.0.1''" 80 "newTcpServer\<lparr>srv_running := True\<rparr>" ?s' True ?cenv
        ?c ?c']
  from t1 b se have 1: "isValid ?s'" by blast
  from t2 r have 2: "srv_bind ?env ''10.0.0.1'' 80 (newTcpServer\<lparr>srv_running := True\<rparr>)
      = Some (False, newTcpServer\<lparr>srv_running := True\<rparr>)" by blast
  from t1 c se have 3: "isValid ?c'" by blast
  from t1 c have 4: "cl_state ?c' = Error" by blast
  from t1 v have 5: "srv_bind ?env ''10.0.0.1'' 80 newTcpServer \<noteq> None" by blast
  from t1 v have 6: "cl_connectInternal ?cenv ''10.0.0.1'' 80 ?c \<noteq> None" by blast
  from 1 2 3 4 5 6 show ?thesis by blast
qed

text \<open>
  The claim as stated fails.  On a fresh server whose \<open>socket()\<close> returns descriptor 3
  and whose \<open>::bind\<close> fails, \<open>bind\<close> returns false and the handle stays valid; when
  \<open>::bind\<close> succeeds and \<open>::listen\<close> fails, \<open>start\<close> returns false with the bound socket
  open; on a fresh client whose connection is refused, \<open>connect\<close> returns false and the
  handle stays valid.
\<close>

theorem failed_attempt_counterexample:
  "map_option fst
     (srv_bind \<lparr>be_socket = Some 3, be_inet_pton = (\<lambda>a. True), be_bind = False\<rparr>
        ''10.0.0.1'' 80 newTcpServer) = Some False
   \<and> map_option (\<lambda>r. isValid (snd r))
     (srv_bind \<lparr>be_socket = Some 3, be_inet_pton = (\<lambda>a. True), be_bind = False\<rparr>
        ''10.0.0.1'' 80 newTcpServer) = Some True
   \<and> map_option fst
     (srv_start \<lparr>be_socket = Some 3, be_inet_pton = (\<lambda>a. True), be_bind = True\<rparr> False
        ''10.0.0.1'' 80 newTcpServer) = Some False
   \<and> map_option (\<lambda>r. isValid (snd r))
     (srv_start \<lparr>be_socket = Some 3, be_inet_pton = (\<lambda>a. True), be_bind = True\<rparr> False
        ''10.0.0.1'' 80 newTcpServer) = Some True
   \<and> map_option fst
     (cl_connectInternal
        \<lparr>ce_socket = Some 4, ce_resolve = (\<lambda>a. None), ce_inet_pton = (\<lambda>a. True),
         ce_connect = ConnectRefused, ce_select = SelectTimeout, ce_so_error = False\<rparr>
        ''10.0.0.1'' 80 newTcpClient) = Some False
   \<and> map_option (\<lambda>r. isValid (snd r))
     (cl_connectInternal
        \<lparr>ce_socket = Some 4, ce_resolve = (\<lambda>a. None), ce_inet_pton = (\<lambda>a. True),
         ce_connect = ConnectRefused, ce_select = SelectTimeout, ce_so_error = False\<rparr>
        ''10.0.0.1'' 80 newTcpClient) = Some True"
  by (simp add: srv_bind_def srv_start_def srv_listen_def cl_connectInternal_def
      cl_connect_created_def connect_outcome_def cl_handleError_def setNonBlocking_def
      sock_create_def isValid_def cl_isConnected_def newTcpServer_def newTcpClient_def)

end
